theory Spec2Isabelle
  imports Main "HOL-Library.Word" "HOL-Library.AList"
begin

unbundle bit_operations_syntax

section \<open>Python values: bytes, strings, slices\<close>

text \<open>
  A Python \<^verbatim>\<open>bytes\<close> object is a list of 8-bit words. A Python \<^verbatim>\<open>str\<close> is a list of
  Unicode code points, each a natural number; \<open>ascii\<close> turns a literal into one.
\<close>

type_synonym byte = "8 word"
type_synonym bytes = "byte list"
type_synonym str = "nat list"

definition ascii :: "string \<Rightarrow> str" where
  "ascii s = map of_char s"

definition ascii_bytes :: "string \<Rightarrow> bytes" where
  "ascii_bytes s = map (\<lambda>c. of_nat (of_char c)) s"

text \<open>The slice \<^verbatim>\<open>xs[a:b]\<close> for indices \<open>0 \<le> a\<close>, \<open>0 \<le> b\<close>; Python clamps it to the list.\<close>

definition slice :: "'a list \<Rightarrow> nat \<Rightarrow> nat \<Rightarrow> 'a list" where
  "slice xs a b = take (b - a) (drop a xs)"

text \<open>
  \<^verbatim>\<open>data.find(b, i)\<close> for a single byte \<open>b\<close>: the least index \<open>\<ge> i\<close> that holds \<open>b\<close>,
  \<open>None\<close> for Python's \<open>-1\<close>. \<^verbatim>\<open>data.index(b, i)\<close> is the same search and raises
  \<^verbatim>\<open>ValueError\<close> where \<^verbatim>\<open>find\<close> returns \<open>-1\<close>.
\<close>

definition bytes_find :: "bytes \<Rightarrow> byte \<Rightarrow> nat \<Rightarrow> nat option" where
  "bytes_find data b i =
     (if b \<in> set (drop i data)
      then Some (i + length (takeWhile (\<lambda>x. x \<noteq> b) (drop i data)))
      else None)"

text \<open>\<^verbatim>\<open>bytes.hex()\<close>: two lower-case hexadecimal digits for each byte.\<close>

definition hex_digit :: "nat \<Rightarrow> nat" where
  "hex_digit n = (if n < 10 then 48 + n else 87 + n)"

definition hex :: "bytes \<Rightarrow> str" where
  "hex bs = concat (map (\<lambda>b. [hex_digit (unat b div 16), hex_digit (unat b mod 16)]) bs)"

text \<open>Big-endian unsigned integers, as \<^verbatim>\<open>struct.unpack\<close> reads them with \<^verbatim>\<open>!L\<close> and \<^verbatim>\<open>!H\<close>.\<close>

definition be_nat :: "bytes \<Rightarrow> nat" where
  "be_nat bs = foldl (\<lambda>a b. a * 256 + unat b) 0 bs"

text \<open>\<^verbatim>\<open>str(n)\<close> for a non-negative integer: its decimal digits.\<close>

function str_of_nat :: "nat \<Rightarrow> str" where
  "str_of_nat n = (if n < 10 then [48 + n] else str_of_nat (n div 10) @ [48 + n mod 10])"
  by pat_completeness auto
termination
  by (relation "measure (\<lambda>n. n)") auto

declare str_of_nat.simps [simp del]

section \<open>UTF-8\<close>

text \<open>
  \<^verbatim>\<open>bytes.decode()\<close> is strict UTF-8: it raises \<^verbatim>\<open>UnicodeDecodeError\<close> (here \<open>None\<close>) on a
  stray or missing continuation byte, an overlong form, a surrogate and a code point
  above \<open>0x10FFFF\<close>.
\<close>

definition cont :: "byte \<Rightarrow> bool" where
  "cont b = (0x80 \<le> unat b \<and> unat b \<le> 0xBF)"

fun utf8_decode :: "bytes \<Rightarrow> str option" where
  "utf8_decode [] = Some []"
| "utf8_decode [b] = (if unat b < 0x80 then Some [unat b] else None)"
| "utf8_decode [b, c1] =
     (if unat b < 0x80 then map_option ((#) (unat b)) (utf8_decode [c1])
      else if 0xC2 \<le> unat b \<and> unat b \<le> 0xDF \<and> cont c1
        then Some [(unat b - 0xC0) * 64 + (unat c1 - 0x80)]
      else None)"
| "utf8_decode [b, c1, c2] =
     (if unat b < 0x80 then map_option ((#) (unat b)) (utf8_decode [c1, c2])
      else if 0xC2 \<le> unat b \<and> unat b \<le> 0xDF \<and> cont c1
        then map_option ((#) ((unat b - 0xC0) * 64 + (unat c1 - 0x80))) (utf8_decode [c2])
      else if 0xE0 \<le> unat b \<and> unat b \<le> 0xEF \<and> cont c1 \<and> cont c2
        then (let cp = (unat b - 0xE0) * 4096 + (unat c1 - 0x80) * 64 + (unat c2 - 0x80)
              in if cp < 0x800 \<or> (0xD800 \<le> cp \<and> cp \<le> 0xDFFF) then None else Some [cp])
      else None)"
| "utf8_decode (b # c1 # c2 # c3 # r) =
     (if unat b < 0x80 then map_option ((#) (unat b)) (utf8_decode (c1 # c2 # c3 # r))
      else if 0xC2 \<le> unat b \<and> unat b \<le> 0xDF \<and> cont c1
        then map_option ((#) ((unat b - 0xC0) * 64 + (unat c1 - 0x80)))
               (utf8_decode (c2 # c3 # r))
      else if 0xE0 \<le> unat b \<and> unat b \<le> 0xEF \<and> cont c1 \<and> cont c2
        then (let cp = (unat b - 0xE0) * 4096 + (unat c1 - 0x80) * 64 + (unat c2 - 0x80)
              in if cp < 0x800 \<or> (0xD800 \<le> cp \<and> cp \<le> 0xDFFF) then None
                 else map_option ((#) cp) (utf8_decode (c3 # r)))
      else if 0xF0 \<le> unat b \<and> unat b \<le> 0xF4 \<and> cont c1 \<and> cont c2 \<and> cont c3
        then (let cp = (unat b - 0xF0) * 262144 + (unat c1 - 0x80) * 4096
                       + (unat c2 - 0x80) * 64 + (unat c3 - 0x80)
              in if cp < 0x10000 \<or> 0x10FFFF < cp then None
                 else map_option ((#) cp) (utf8_decode r))
      else None)"

text \<open>
  \<^verbatim>\<open>str.encode()\<close> is UTF-8 too, and raises \<^verbatim>\<open>UnicodeEncodeError\<close> (here \<open>None\<close>) on a
  surrogate; a number from \<open>0x110000\<close> on is no code point of a \<^verbatim>\<open>str\<close>.
\<close>

definition utf8_encode_cp :: "nat \<Rightarrow> bytes option" where
  "utf8_encode_cp c =
     (if c < 0x80 then Some [of_nat c]
      else if c < 0x800 then Some [of_nat (0xC0 + c div 64), of_nat (0x80 + c mod 64)]
      else if 0xD800 \<le> c \<and> c \<le> 0xDFFF then None
      else if c < 0x10000
        then Some [of_nat (0xE0 + c div 4096), of_nat (0x80 + c div 64 mod 64),
                   of_nat (0x80 + c mod 64)]
      else if c < 0x110000
        then Some [of_nat (0xF0 + c div 262144), of_nat (0x80 + c div 4096 mod 64),
                   of_nat (0x80 + c div 64 mod 64), of_nat (0x80 + c mod 64)]
      else None)"

fun utf8_encode :: "str \<Rightarrow> bytes option" where
  "utf8_encode [] = Some []"
| "utf8_encode (c # cs) =
     (case utf8_encode_cp c of
        None \<Rightarrow> None
      | Some bs \<Rightarrow> map_option ((@) bs) (utf8_encode cs))"

section \<open>Library functions the program calls\<close>

subsection \<open>The Unicode character database\<close>

text \<open>
  \<^verbatim>\<open>str.split()\<close> and \<^verbatim>\<open>int()\<close> ask the interpreter's Unicode database which code points
  are whitespace and which are decimal digits. For ASCII the answer is fixed and written
  out below; for the code points from 128 on the database is a parameter of the model, so
  every theorem holds for whatever table the interpreter ships.
\<close>

record unicode_db =
  uc_isspace :: "nat \<Rightarrow> bool"
  uc_decimal :: "nat \<Rightarrow> nat option"

definition py_isspace :: "unicode_db \<Rightarrow> nat \<Rightarrow> bool" where
  "py_isspace U c =
     (if c < 128 then (9 \<le> c \<and> c \<le> 13) \<or> (28 \<le> c \<and> c \<le> 32) else uc_isspace U c)"

text \<open>
  \<^verbatim>\<open>s.split()\<close> with no argument: the maximal runs of non-whitespace characters of \<open>s\<close>.
  \<open>split_ws\<close> scans \<open>s\<close> once, \<open>tok\<close> being the run read so far.
\<close>

fun split_ws :: "(nat \<Rightarrow> bool) \<Rightarrow> str \<Rightarrow> str \<Rightarrow> str list" where
  "split_ws sp tok [] = (if tok = [] then [] else [tok])"
| "split_ws sp tok (c # cs) =
     (if sp c then (if tok = [] then split_ws sp [] cs else tok # split_ws sp [] cs)
      else split_ws sp (tok @ [c]) cs)"

definition py_split :: "unicode_db \<Rightarrow> str \<Rightarrow> str list" where
  "py_split U s = split_ws (py_isspace U) [] s"

text \<open>
  \<^verbatim>\<open>int(s, base)\<close> for a string and a base from 2 to 36. CPython first maps every
  non-ASCII whitespace character to a blank, every non-ASCII decimal digit to its ASCII
  digit and any other non-ASCII character to \<^verbatim>\<open>?\<close>; then it skips blanks, reads a sign,
  the prefix \<^verbatim>\<open>0o\<close> (base 8), \<^verbatim>\<open>0x\<close> (base 16) or \<^verbatim>\<open>0b\<close> (base 2) with one optional
  underscore after it, and digits of the base with single underscores between them;
  blanks may follow. Anything else is \<^verbatim>\<open>ValueError\<close>. The result is a Python integer,
  unbounded and signed. (CPython also turns the ASCII character DEL into \<^verbatim>\<open>?\<close> when the
  string is not all ASCII; both are invalid, so \<open>to_ascii\<close> leaves ASCII alone. The cap
  that recent interpreters put on the number of decimal digits, 4300 unless configured,
  is not modelled.)
\<close>

definition to_ascii :: "unicode_db \<Rightarrow> str \<Rightarrow> str" where
  "to_ascii U s =
     map (\<lambda>c. if c < 128 then c
              else if uc_isspace U c then 32
              else (case uc_decimal U c of
                      Some d \<Rightarrow> if d < 10 then 48 + d else 63
                    | None \<Rightarrow> 63)) s"

definition c_isspace :: "nat \<Rightarrow> bool" where
  "c_isspace c = (c = 32 \<or> (9 \<le> c \<and> c \<le> 13))"

definition digit_value :: "nat \<Rightarrow> nat" where
  "digit_value c =
     (if 48 \<le> c \<and> c \<le> 57 then c - 48
      else if 97 \<le> c \<and> c \<le> 122 then c - 87
      else if 65 \<le> c \<and> c \<le> 90 then c - 55
      else 37)"

definition strip_sign :: "str \<Rightarrow> bool \<times> str" where
  "strip_sign s =
     (case s of
        [] \<Rightarrow> (False, [])
      | c # r \<Rightarrow> if c = 43 then (False, r) else if c = 45 then (True, r) else (False, s))"

definition strip_prefix :: "nat \<Rightarrow> str \<Rightarrow> str" where
  "strip_prefix base s =
     (case s of
        z # p # r \<Rightarrow>
          if z = 48 \<and> ((base = 16 \<and> (p = 120 \<or> p = 88)) \<or> (base = 8 \<and> (p = 111 \<or> p = 79))
                       \<or> (base = 2 \<and> (p = 98 \<or> p = 66)))
          then (case r of u # r' \<Rightarrow> if u = 95 then r' else r | [] \<Rightarrow> r)
          else s
      | _ \<Rightarrow> s)"

fun double_underscore :: "str \<Rightarrow> bool" where
  "double_underscore (a # b # r) = ((a = 95 \<and> b = 95) \<or> double_underscore (b # r))"
| "double_underscore _ = False"

datatype value_error =
    Prefix_too_short
  | Object_not_found str
  | Multiple_objects nat str
  | Subsection_not_found
  | Unpack_count nat
  | Invalid_literal str

datatype assertion =
    Invalid_index_checksum
  | Invalid_index_signature bytes
  | Unknown_index_version nat
  | Entry_count
  | Expected_size int nat
  | Expected_tree str

text \<open>
  The exceptions the program can raise. \<open>ValueError\<close> and \<open>AssertionError\<close> carry which of
  the program's messages they are (\<^verbatim>\<open>assert\<close> statements are taken as executed, that is,
  the interpreter runs without \<^verbatim>\<open>-O\<close>); \<open>Unpack_count n\<close> is the \<^verbatim>\<open>ValueError\<close> of a tuple
  assignment \<^verbatim>\<open>a, b = xs\<close> when \<^verbatim>\<open>xs\<close> has \<open>n \<noteq> 2\<close> elements, \<open>Subsection_not_found\<close>
  that of \<^verbatim>\<open>bytes.index\<close>.
\<close>

datatype error =
    FileNotFoundError
  | AssertionError assertion
  | ValueError value_error
  | TypeError
  | UnicodeDecodeError
  | UnicodeEncodeError
  | Struct_error
  | Zlib_error

definition py_int :: "unicode_db \<Rightarrow> nat \<Rightarrow> str \<Rightarrow> error + int" where
  "py_int U base s =
     (let a = dropWhile c_isspace (to_ascii U s);
          (neg, a') = strip_sign a;
          body = strip_prefix base a';
          ds = takeWhile (\<lambda>c. c = 95 \<or> digit_value c < base) body;
          rest = dropWhile c_isspace (drop (length ds) body)
      in if ds = [] \<or> hd ds = 95 \<or> last ds = 95 \<or> double_underscore ds \<or> rest \<noteq> []
         then Inl (ValueError (Invalid_literal s))
         else let v = foldl (\<lambda>v c. v * base + digit_value c) 0 (filter (\<lambda>c. c \<noteq> 95) ds)
              in Inr (if neg then - int v else int v))"

subsection \<open>SHA-1\<close>

text \<open>
  \<^verbatim>\<open>hashlib.sha1\<close>, after FIPS 180: the message is padded with \<open>0x80\<close>, zeros and its
  bit length to a multiple of 64 bytes, and each 64-byte block updates five 32-bit words.
\<close>

definition be32 :: "32 word \<Rightarrow> bytes" where
  "be32 w = [ucast (drop_bit 24 w), ucast (drop_bit 16 w), ucast (drop_bit 8 w), ucast w]"

definition word_of_be :: "bytes \<Rightarrow> 32 word" where
  "word_of_be bs = foldl (\<lambda>a b. push_bit 8 a OR ucast b) 0 bs"

definition be64 :: "64 word \<Rightarrow> bytes" where
  "be64 w = map (\<lambda>k. ucast (drop_bit (8 * k) w)) (rev [0..<8])"

definition sha1_pad :: "bytes \<Rightarrow> bytes" where
  "sha1_pad m =
     m @ [0x80] @ replicate ((119 - length m mod 64) mod 64) 0 @ be64 (of_nat (8 * length m))"

fun chunks :: "nat \<Rightarrow> nat \<Rightarrow> 'a list \<Rightarrow> 'a list list" where
  "chunks 0 k xs = []"
| "chunks (Suc n) k xs = take k xs # chunks n k (drop k xs)"

text \<open>The message schedule, newest word first: \<open>ws ! 2\<close> is \<open>w[t-3]\<close>.\<close>

fun sha1_schedule :: "nat \<Rightarrow> 32 word list \<Rightarrow> 32 word list" where
  "sha1_schedule 0 ws = ws"
| "sha1_schedule (Suc n) ws =
     sha1_schedule n (word_rotl 1 (ws ! 2 XOR ws ! 7 XOR ws ! 13 XOR ws ! 15) # ws)"

type_synonym sha1_state = "32 word \<times> 32 word \<times> 32 word \<times> 32 word \<times> 32 word"

definition sha1_round :: "sha1_state \<Rightarrow> nat \<times> 32 word \<Rightarrow> sha1_state" where
  "sha1_round s tw =
     (case s of (a, b, c, d, e) \<Rightarrow> case tw of (t, w) \<Rightarrow>
      let f = (if t < 20 then (b AND c) OR (NOT b AND d)
               else if t < 40 then b XOR c XOR d
               else if t < 60 then (b AND c) OR (b AND d) OR (c AND d)
               else b XOR c XOR d);
          k = (if t < 20 then 0x5A827999 else if t < 40 then 0x6ED9EBA1
               else if t < 60 then 0x8F1BBCDC else 0xCA62C1D6)
      in (word_rotl 5 a + f + e + k + w, a, word_rotl 30 b, c, d))"

definition sha1_block :: "sha1_state \<Rightarrow> bytes \<Rightarrow> sha1_state" where
  "sha1_block h blk =
     (let w = rev (sha1_schedule 64 (rev (map word_of_be (chunks 16 4 blk))))
      in case h of (h0, h1, h2, h3, h4) \<Rightarrow>
         case foldl sha1_round h (zip [0..<80] w) of (a, b, c, d, e) \<Rightarrow>
           (h0 + a, h1 + b, h2 + c, h3 + d, h4 + e))"

definition sha1 :: "bytes \<Rightarrow> bytes" where
  "sha1 m =
     (let p = sha1_pad m in
      case foldl sha1_block (0x67452301, 0xEFCDAB89, 0x98BADCFE, 0x10325476, 0xC3D2E1F0)
             (chunks (length p div 64) 64 p)
      of (h0, h1, h2, h3, h4) \<Rightarrow> be32 h0 @ be32 h1 @ be32 h2 @ be32 h3 @ be32 h4)"

definition hexdigest :: "bytes \<Rightarrow> str" where
  "hexdigest m = hex (sha1 m)"

subsection \<open>zlib\<close>

text \<open>
  \<^verbatim>\<open>zlib.compress\<close> and \<^verbatim>\<open>zlib.decompress\<close> are parameters of the model; \<open>decompress\<close> is
  \<open>None\<close> where the library raises \<^verbatim>\<open>zlib.error\<close>. What the theorems need of them, that
  decompression undoes compression, is stated as \<open>lossless\<close>.
\<close>

record zlib =
  compress :: "bytes \<Rightarrow> bytes"
  decompress :: "bytes \<Rightarrow> bytes option"

definition lossless :: "zlib \<Rightarrow> bool" where
  "lossless Z = (\<forall>x. decompress Z (compress Z x) = Some x)"

section \<open>The file system\<close>

text \<open>
  What the program sees of the disk: the file \<^verbatim>\<open>.git/index\<close>, if there is one, and the
  directories under \<^verbatim>\<open>.git/objects\<close>, each a listing of file names with their contents.
  \<open>objects s d = None\<close> says that \<^verbatim>\<open>.git/objects/d\<close> does not exist, \<open>Some []\<close> that it
  exists and is empty. \<open>Index_path\<close> is \<^verbatim>\<open>os.path.join('.git', 'index')\<close> and
  \<open>Object_path d n\<close> is \<^verbatim>\<open>os.path.join('.git', 'objects', d, n)\<close>, for names \<open>d\<close> and \<open>n\<close>
  that are single path components.
\<close>

record fs =
  index_file :: "bytes option"
  objects :: "str \<Rightarrow> (str \<times> bytes) list option"

datatype path = Index_path | Object_path str str

definition read_file :: "fs \<Rightarrow> path \<Rightarrow> error + bytes" where
  "read_file s p =
     (case p of
        Index_path \<Rightarrow> (case index_file s of None \<Rightarrow> Inl FileNotFoundError | Some c \<Rightarrow> Inr c)
      | Object_path d n \<Rightarrow>
          (case objects s d of
             None \<Rightarrow> Inl FileNotFoundError
           | Some l \<Rightarrow> (case map_of l n of None \<Rightarrow> Inl FileNotFoundError | Some c \<Rightarrow> Inr c)))"

definition write_file :: "fs \<Rightarrow> path \<Rightarrow> bytes \<Rightarrow> error + fs" where
  "write_file s p data =
     (case p of
        Index_path \<Rightarrow> Inr (s\<lparr>index_file := Some data\<rparr>)
      | Object_path d n \<Rightarrow>
          (case objects s d of
             None \<Rightarrow> Inl FileNotFoundError
           | Some l \<Rightarrow> Inr (s\<lparr>objects := (objects s)(d \<mapsto> AList.update n data l)\<rparr>)))"

text \<open>\<^verbatim>\<open>os.path.exists\<close>, \<^verbatim>\<open>os.makedirs(os.path.dirname(path), exist_ok=True)\<close>, \<^verbatim>\<open>os.listdir\<close>.\<close>

definition path_exists :: "fs \<Rightarrow> path \<Rightarrow> bool" where
  "path_exists s p =
     (case p of
        Index_path \<Rightarrow> index_file s \<noteq> None
      | Object_path d n \<Rightarrow> (case objects s d of None \<Rightarrow> False | Some l \<Rightarrow> map_of l n \<noteq> None))"

definition makedirs :: "fs \<Rightarrow> str \<Rightarrow> fs" where
  "makedirs s d = (case objects s d of None \<Rightarrow> s\<lparr>objects := (objects s)(d \<mapsto> [])\<rparr> | Some l \<Rightarrow> s)"

definition listdir :: "fs \<Rightarrow> str \<Rightarrow> error + str list" where
  "listdir s d = (case objects s d of None \<Rightarrow> Inl FileNotFoundError | Some l \<Rightarrow> Inr (map fst l))"

definition startswith :: "str \<Rightarrow> str \<Rightarrow> bool" where
  "startswith name p = (take (length p) name = p)"

section \<open>The object store\<close>

text \<open>
  \<open>hash_object\<close> returns the digest and the file system it leaves behind. The header is
  \<^verbatim>\<open>"{} {}".format(obj_type, len(data)).encode()\<close>.
\<close>

definition hash_object :: "zlib \<Rightarrow> fs \<Rightarrow> bytes \<Rightarrow> str \<Rightarrow> bool \<Rightarrow> error + (str \<times> fs)" where
  "hash_object Z s data obj_type write =
     (case utf8_encode (obj_type @ [32] @ str_of_nat (length data)) of
        None \<Rightarrow> Inl UnicodeEncodeError
      | Some header \<Rightarrow>
          let full_data = header @ [0] @ data;
              sha1 = hexdigest full_data
          in if write
             then (let path = Object_path (take 2 sha1) (drop 2 sha1)
                   in if \<not> path_exists s path
                      then (case write_file (makedirs s (take 2 sha1)) path (compress Z full_data) of
                              Inl e \<Rightarrow> Inl e
                            | Inr s' \<Rightarrow> Inr (sha1, s'))
                      else Inr (sha1, s))
             else Inr (sha1, s))"

definition find_object :: "fs \<Rightarrow> str \<Rightarrow> error + path" where
  "find_object s sha1_prefix =
     (if length sha1_prefix < 2 then Inl (ValueError Prefix_too_short)
      else let obj_dir = take 2 sha1_prefix;
               rest = drop 2 sha1_prefix
           in case listdir s obj_dir of
                Inl e \<Rightarrow> Inl e
              | Inr names \<Rightarrow>
                  let objs = filter (\<lambda>name. startswith name rest) names
                  in if objs = [] then Inl (ValueError (Object_not_found sha1_prefix))
                     else if length objs \<ge> 2
                       then Inl (ValueError (Multiple_objects (length objs) sha1_prefix))
                     else Inr (Object_path obj_dir (hd objs)))"

definition read_object :: "zlib \<Rightarrow> unicode_db \<Rightarrow> fs \<Rightarrow> str \<Rightarrow> error + (str \<times> bytes)" where
  "read_object Z U s sha1_prefix =
     (case find_object s sha1_prefix of
        Inl e \<Rightarrow> Inl e
      | Inr path \<Rightarrow>
     (case read_file s path of
        Inl e \<Rightarrow> Inl e
      | Inr raw \<Rightarrow>
     (case decompress Z raw of
        None \<Rightarrow> Inl Zlib_error
      | Some full_data \<Rightarrow>
     (case bytes_find full_data 0 0 of
        None \<Rightarrow> Inl (ValueError Subsection_not_found)
      | Some null_index \<Rightarrow>
     (case utf8_decode (take null_index full_data) of
        None \<Rightarrow> Inl UnicodeDecodeError
      | Some header \<Rightarrow>
     (case py_split U header of
        [obj_type, size_str] \<Rightarrow>
          (case py_int U 10 size_str of
             Inl e \<Rightarrow> Inl e
           | Inr size' \<Rightarrow>
               let data = drop (null_index + 1) full_data
               in if size' = int (length data) then Inr (obj_type, data)
                  else Inl (AssertionError (Expected_size size' (length data))))
      | toks \<Rightarrow> Inl (ValueError (Unpack_count (length toks)))))))))"

section \<open>The tree decoder\<close>

text \<open>
  One header \<^verbatim>\<open>data[i:end]\<close>: \<^verbatim>\<open>mode_str, path = data[i:end].decode().split()\<close> and
  \<^verbatim>\<open>mode = int(mode_str, base=8)\<close>.
\<close>

definition tree_header :: "unicode_db \<Rightarrow> bytes \<Rightarrow> error + (int \<times> str)" where
  "tree_header U h =
     (case utf8_decode h of
        None \<Rightarrow> Inl UnicodeDecodeError
      | Some s \<Rightarrow>
          (case py_split U s of
             [mode_str, path] \<Rightarrow>
               (case py_int U 8 mode_str of Inl e \<Rightarrow> Inl e | Inr mode \<Rightarrow> Inr (mode, path))
           | toks \<Rightarrow> Inl (ValueError (Unpack_count (length toks)))))"

text \<open>
  The loop \<^verbatim>\<open>for _ in range(1000)\<close> of \<open>read_tree\<close>: the first argument counts the
  iterations that are left.
\<close>

type_synonym tree_entry = "int \<times> str \<times> str"

fun tree_loop :: "unicode_db \<Rightarrow> bytes \<Rightarrow> nat \<Rightarrow> nat \<Rightarrow> tree_entry list \<Rightarrow> error + tree_entry list"
where
  "tree_loop U data 0 i entries = Inr entries"
| "tree_loop U data (Suc n) i entries =
     (case bytes_find data 0 i of
        None \<Rightarrow> Inr entries
      | Some end \<Rightarrow>
          (case tree_header U (slice data i end) of
             Inl e \<Rightarrow> Inl e
           | Inr (mode, path) \<Rightarrow>
               let digest = slice data (end + 1) (end + 21)
               in tree_loop U data n (end + 1 + 20) (entries @ [(mode, path, hex digest)])))"

declare tree_loop.simps [simp del]

definition read_tree ::
  "zlib \<Rightarrow> unicode_db \<Rightarrow> fs \<Rightarrow> str option \<Rightarrow> bytes option \<Rightarrow> error + tree_entry list"
where
  "read_tree Z U s sha1_hex data =
     (case sha1_hex of
        Some prefix \<Rightarrow>
          (case read_object Z U s prefix of
             Inl e \<Rightarrow> Inl e
           | Inr (obj_type, d) \<Rightarrow>
               if obj_type = ascii ''tree'' then tree_loop U d 1000 0 []
               else Inl (AssertionError (Expected_tree obj_type)))
      | None \<Rightarrow>
          (case data of
             None \<Rightarrow> Inl TypeError
           | Some d \<Rightarrow> tree_loop U d 1000 0 []))"

section \<open>The index decoder\<close>

record INDEXENTRY =
  ctime_s :: nat
  ctime_n :: nat
  mtime_s :: nat
  mtime_n :: nat
  dev :: nat
  ino :: nat
  mode :: nat
  uid :: nat
  gid :: nat
  size' :: nat
  sha1' :: bytes
  flags :: nat
  path' :: str

text \<open>\<^verbatim>\<open>struct.unpack('!LLLLLLLLLL20sH', f)\<close> on 62 bytes, with the decoded path.\<close>

definition unpack_entry :: "bytes \<Rightarrow> str \<Rightarrow> INDEXENTRY" where
  "unpack_entry f p =
     \<lparr>ctime_s = be_nat (slice f 0 4), ctime_n = be_nat (slice f 4 8),
      mtime_s = be_nat (slice f 8 12), mtime_n = be_nat (slice f 12 16),
      dev = be_nat (slice f 16 20), ino = be_nat (slice f 20 24),
      mode = be_nat (slice f 24 28), uid = be_nat (slice f 28 32),
      gid = be_nat (slice f 32 36), size' = be_nat (slice f 36 40),
      sha1' = slice f 40 60, flags = be_nat (slice f 60 62), path' = p\<rparr>"

text \<open>The loop \<^verbatim>\<open>while i + 62 < len(entry_data)\<close> of \<open>read_index\<close>.\<close>

function index_loop :: "bytes \<Rightarrow> nat \<Rightarrow> INDEXENTRY list \<Rightarrow> error + INDEXENTRY list" where
  "index_loop entry_data i entries =
     (if i + 62 < length entry_data
      then (let fields_end = i + 62
            in case bytes_find entry_data 0 fields_end of
                 None \<Rightarrow> Inl (ValueError Subsection_not_found)
               | Some path_end \<Rightarrow>
                   (case utf8_decode (slice entry_data fields_end path_end) of
                      None \<Rightarrow> Inl UnicodeDecodeError
                    | Some p \<Rightarrow>
                        index_loop entry_data
                          (i + ((62 + length (slice entry_data fields_end path_end) + 8) div 8) * 8)
                          (entries @ [unpack_entry (slice entry_data i fields_end) p])))
      else Inr entries)"
  by pat_completeness auto
termination
  by (relation "measure (\<lambda>(entry_data, i, entries). length entry_data - i)") auto

declare index_loop.simps [simp del]

definition read_index :: "fs \<Rightarrow> error + INDEXENTRY list" where
  "read_index s =
     (case read_file s Index_path of
        Inl e \<Rightarrow> (if e = FileNotFoundError then Inr [] else Inl e)
      | Inr data \<Rightarrow>
          let digest = sha1 (take (length data - 20) data)
          in if digest \<noteq> take (length data - 20) data
             then Inl (AssertionError Invalid_index_checksum)
             else if length (take 12 data) \<noteq> 12 then Inl Struct_error
             else let signature = take 4 data;
                      version = be_nat (slice data 4 8);
                      num_entries = be_nat (slice data 8 12)
                  in if signature \<noteq> ascii_bytes ''DIRC''
                     then Inl (AssertionError (Invalid_index_signature signature))
                     else if version \<noteq> 2 then Inl (AssertionError (Unknown_index_version version))
                     else let entry_data = slice data 12 (length data - 20)
                          in case index_loop entry_data 0 [] of
                               Inl e \<Rightarrow> Inl e
                             | Inr entries \<Rightarrow>
                                 if length entries = num_entries then Inr entries
                                 else Inl (AssertionError Entry_count))"

section \<open>Notions used in the statements\<close>

text \<open>
  A file system is well formed when no directory lists a name twice. \<open>empty_fs\<close> is the
  repository right after \<^verbatim>\<open>init\<close>: no index, no object directory.
\<close>

definition fs_ok :: "fs \<Rightarrow> bool" where
  "fs_ok s = (\<forall>d l. objects s d = Some l \<longrightarrow> distinct (map fst l))"

definition empty_fs :: fs where
  "empty_fs = \<lparr>index_file = None, objects = Map.empty\<rparr>"

text \<open>
  Instances of the two library parameters for closed examples: a codec that stores the
  bytes as they are, and a database with no whitespace and no digit beyond ASCII.
\<close>

definition no_compression :: zlib where
  "no_compression = \<lparr>compress = (\<lambda>x. x), decompress = Some\<rparr>"

definition ascii_db :: unicode_db where
  "ascii_db = \<lparr>uc_isspace = (\<lambda>c. False), uc_decimal = (\<lambda>c. None)\<rparr>"

definition is_digits :: "str \<Rightarrow> bool" where
  "is_digits s = (s \<noteq> [] \<and> (\<forall>c \<in> set s. 48 \<le> c \<and> c \<le> 57))"

definition is_ascii :: "str \<Rightarrow> bool" where
  "is_ascii s = (\<forall>c \<in> set s. c < 128)"

text \<open>
  The index file of a repository that tracks nothing: the header \<^verbatim>\<open>DIRC\<close>, version 2,
  zero entries, and then the SHA-1 of these twelve bytes.
\<close>

definition empty_index :: bytes where
  "empty_index = ascii_bytes ''DIRC'' @ [0, 0, 0, 2, 0, 0, 0, 0]"

text \<open>
  The blob \<^verbatim>\<open>hello\<close> as \<open>hash_object\<close> frames it, and the store that holds this one
  object (under \<open>no_compression\<close>).
\<close>

definition hello_blob :: bytes where
  "hello_blob = ascii_bytes ''blob 5'' @ [0] @ ascii_bytes ''hello''"

definition hello_store :: fs where
  "hello_store =
     \<lparr>index_file = None,
      objects = [take 2 (hexdigest hello_blob) \<mapsto> [(drop 2 (hexdigest hello_blob), hello_blob)]]\<rparr>"

text \<open>
  The tree format, for the statements about the decoder: a record is a header, a NUL and
  a raw digest. A record is well formed when its header holds no NUL and parses, and its
  digest has 20 bytes; \<open>entry_of\<close> is the entry it stands for. \<open>file_a\<close> is the record of
  a regular file \<^verbatim>\<open>a\<close> with the all-zero digest.
\<close>

definition tree_record :: "bytes \<times> bytes \<Rightarrow> bytes" where
  "tree_record r = fst r @ [0] @ snd r"

definition record_ok :: "unicode_db \<Rightarrow> bytes \<times> bytes \<Rightarrow> bool" where
  "record_ok U r =
     (0 \<notin> set (fst r) \<and> length (snd r) = 20 \<and> (\<exists>m p. tree_header U (fst r) = Inr (m, p)))"

definition entry_of :: "unicode_db \<Rightarrow> bytes \<times> bytes \<Rightarrow> tree_entry" where
  "entry_of U r = (case tree_header U (fst r) of Inr (m, p) \<Rightarrow> (m, p, hex (snd r)))"

definition file_a :: "bytes \<times> bytes" where
  "file_a = (ascii_bytes ''100644 a'', replicate 20 0)"

text \<open>
  The index format, for the statements about the decoder. \<open>be_bytes k n\<close> is \<open>n\<close> as \<open>k\<close>
  big-endian bytes. A record is the ten 4-byte fields, the 20-byte digest and the 2-byte
  flags of an entry, then the bytes of its path, then one to eight NULs that bring the
  record to a multiple of 8 bytes. An entry with the bytes of its path is well formed when
  every field fits its width, the digest has 20 bytes, and the path bytes hold no NUL and
  are the UTF-8 form of the entry's path. \<open>entry_a\<close> is an entry for a file \<^verbatim>\<open>a\<close>.
\<close>

definition be_bytes :: "nat \<Rightarrow> nat \<Rightarrow> bytes" where
  "be_bytes k n = map (\<lambda>j. of_nat (n div 256 ^ j mod 256)) (rev [0..<k])"

definition index_fields :: "INDEXENTRY \<Rightarrow> bytes" where
  "index_fields e =
     be_bytes 4 (ctime_s e) @ be_bytes 4 (ctime_n e) @ be_bytes 4 (mtime_s e)
     @ be_bytes 4 (mtime_n e) @ be_bytes 4 (dev e) @ be_bytes 4 (ino e) @ be_bytes 4 (mode e)
     @ be_bytes 4 (uid e) @ be_bytes 4 (gid e) @ be_bytes 4 (size' e) @ sha1' e
     @ be_bytes 2 (flags e)"

definition index_record :: "INDEXENTRY \<times> bytes \<Rightarrow> bytes" where
  "index_record r =
     index_fields (fst r) @ snd r @ replicate (8 - (62 + length (snd r)) mod 8) 0"

definition index_entry_ok :: "INDEXENTRY \<times> bytes \<Rightarrow> bool" where
  "index_entry_ok r =
     (let e = fst r in
      ctime_s e < 2 ^ 32 \<and> ctime_n e < 2 ^ 32 \<and> mtime_s e < 2 ^ 32 \<and> mtime_n e < 2 ^ 32
      \<and> dev e < 2 ^ 32 \<and> ino e < 2 ^ 32 \<and> mode e < 2 ^ 32 \<and> uid e < 2 ^ 32
      \<and> gid e < 2 ^ 32 \<and> size' e < 2 ^ 32 \<and> length (sha1' e) = 20 \<and> flags e < 2 ^ 16
      \<and> 0 \<notin> set (snd r) \<and> utf8_decode (snd r) = Some (path' e))"

definition entry_a :: "INDEXENTRY \<times> bytes" where
  "entry_a =
     (\<lparr>ctime_s = 1, ctime_n = 2, mtime_s = 3, mtime_n = 4, dev = 5, ino = 6, mode = 33188,
       uid = 1000, gid = 1000, size' = 5, sha1' = replicate 20 0xAB, flags = 1,
       path' = ascii ''a''\<rparr>, ascii_bytes ''a'')"

text \<open>
  For the round trip through the store. \<open>full_data_of t p\<close> is the framed object that
  \<open>hash_object\<close> builds from a type and a payload. \<open>replay Z s ws\<close> writes the objects
  \<open>ws\<close> in order with \<open>hash_object\<close>, starting from \<open>s\<close>. A list of objects is collision
  free when no two different framed objects among them have the same SHA-1 digest.
  \<open>store_inv Z F s\<close> says of a store that every directory lists each name once, has a
  name of two characters, and holds under each name the compressed form of a framed
  object from \<open>F\<close> whose digest is the directory name followed by the file name.
\<close>

definition full_data_of :: "str \<Rightarrow> bytes \<Rightarrow> bytes option" where
  "full_data_of t p =
     map_option (\<lambda>header. header @ [0] @ p) (utf8_encode (t @ [32] @ str_of_nat (length p)))"

fun replay :: "zlib \<Rightarrow> fs \<Rightarrow> (str \<times> bytes) list \<Rightarrow> error + fs" where
  "replay Z s [] = Inr s"
| "replay Z s ((t, p) # ws) =
     (case hash_object Z s p t True of Inl e \<Rightarrow> Inl e | Inr (d, s') \<Rightarrow> replay Z s' ws)"

definition frames :: "(str \<times> bytes) list \<Rightarrow> bytes list" where
  "frames ws = List.map_filter (\<lambda>(t, p). full_data_of t p) ws"

definition collision_free :: "(str \<times> bytes) list \<Rightarrow> bool" where
  "collision_free ws = inj_on hexdigest (set (frames ws))"

definition store_inv :: "zlib \<Rightarrow> bytes set \<Rightarrow> fs \<Rightarrow> bool" where
  "store_inv Z F s =
     (\<forall>dd l. objects s dd = Some l \<longrightarrow>
        distinct (map fst l) \<and>
        (\<forall>n c. (n, c) \<in> set l \<longrightarrow>
           length dd = 2 \<and> (\<exists>f \<in> F. c = compress Z f \<and> hexdigest f = dd @ n)))"

definition object_types :: "str set" where
  "object_types = {ascii ''blob'', ascii ''tree'', ascii ''commit''}"

section \<open>Lists, digits and UTF-8\<close>

lemma count_list_distinct:
  "distinct xs \<Longrightarrow> x \<in> set xs \<Longrightarrow> count_list xs x = 1"
  by (induction xs) auto

lemma update_names_count:
  assumes "distinct (map fst l)"
  shows "count_list (map fst (AList.update n c l)) n = 1"
proof -
  have "distinct (map fst (AList.update n c l))"
    using assms by (rule distinct_update)
  moreover have "n \<in> set (map fst (AList.update n c l))"
    by (simp add: dom_update)
  ultimately show ?thesis by (rule count_list_distinct)
qed

lemma map_of_names_count:
  assumes "distinct (map fst l)" and "map_of l n = Some c"
  shows "count_list (map fst l) n = 1"
  using assms by (intro count_list_distinct) (auto dest: map_of_SomeD intro: rev_image_eqI)

lemma str_of_nat_digits: "is_digits (str_of_nat n)"
proof (induction n rule: str_of_nat.induct)
  case (1 n)
  show ?case
  proof (cases "n < 10")
    case True
    then show ?thesis by (subst str_of_nat.simps) (simp add: is_digits_def)
  next
    case False
    have "n mod 10 < 10" by simp
    then have "48 + n mod 10 \<le> 57" by linarith
    with False 1 show ?thesis
      by (subst str_of_nat.simps) (auto simp: is_digits_def)
  qed
qed

lemma digits_value_str_of_nat:
  "foldl (\<lambda>v c. v * 10 + digit_value c) 0 (str_of_nat n) = n"
proof (induction n rule: str_of_nat.induct)
  case (1 n)
  show ?case
  proof (cases "n < 10")
    case True
    then show ?thesis by (subst str_of_nat.simps) (simp add: digit_value_def)
  next
    case False
    have "n mod 10 < 10" by simp
    then have "digit_value (48 + n mod 10) = n mod 10"
      by (simp add: digit_value_def)
    with False 1 show ?thesis
      by (subst str_of_nat.simps) simp
  qed
qed

lemma double_underscore_none: "95 \<notin> set s \<Longrightarrow> \<not> double_underscore s"
  by (induction s rule: double_underscore.induct) auto

text \<open>On a plain run of digits of the base, \<open>py_int\<close> is positional notation.\<close>

lemma py_int_digits:
  assumes "is_digits s" and "base = 8 \<or> base = 10"
    and "\<forall>c \<in> set s. digit_value c < base"
  shows "py_int U base s = Inr (int (foldl (\<lambda>v c. v * base + digit_value c) 0 s))"
proof -
  from assms(1) obtain c r where s: "s = c # r" and c: "48 \<le> c" "c \<le> 57"
    by (cases s) (auto simp: is_digits_def)
  have all: "\<forall>c \<in> set s. 48 \<le> c \<and> c \<le> 57"
    using assms(1) by (simp add: is_digits_def)
  have a: "to_ascii U s = s"
    unfolding to_ascii_def by (rule map_idI) (use all in force)
  have b: "dropWhile c_isspace s = s"
    using c by (simp add: s c_isspace_def)
  have sg: "strip_sign s = (False, s)"
    using c by (simp add: s strip_sign_def)
  have pre: "strip_prefix base s = s"
  proof (cases r)
    case Nil
    then show ?thesis by (simp add: s strip_prefix_def)
  next
    case (Cons p r')
    have "48 \<le> p \<and> p \<le> 57" using all by (simp add: s Cons)
    then show ?thesis
      using assms(2) by (auto simp: s Cons strip_prefix_def)
  qed
  have tw: "takeWhile (\<lambda>c. c = 95 \<or> digit_value c < base) s = s"
    using assms(3) by (simp add: takeWhile_eq_all_conv)
  have no95: "95 \<notin> set s"
    using all by force
  have f: "filter (\<lambda>c. c \<noteq> 95) s = s"
    using no95 by (simp add: filter_id_conv) metis
  have "hd s \<in> set s" "last s \<in> set s"
    using assms(1) by (simp_all add: is_digits_def)
  with no95 have hd: "hd s \<noteq> 95" "last s \<noteq> 95"
    by metis+
  show ?thesis
    using hd double_underscore_none [OF no95] assms(1)
    by (simp add: py_int_def a b sg pre tw f is_digits_def)
qed

lemma py_int_str_of_nat: "py_int U 10 (str_of_nat n) = Inr (int n)"
proof -
  have d: "is_digits (str_of_nat n)" by (rule str_of_nat_digits)
  have "\<forall>c \<in> set (str_of_nat n). digit_value c < 10"
    using d by (auto simp: is_digits_def digit_value_def)
  from py_int_digits [OF d _ this, of U] show ?thesis
    by (simp add: digits_value_str_of_nat)
qed

lemma split_ws_run:
  "\<forall>c \<in> set a. \<not> sp c \<Longrightarrow> split_ws sp tok (a @ r) = split_ws sp (tok @ a) r"
  by (induction a arbitrary: tok) auto

lemma split_ws_two:
  assumes "a \<noteq> []" "b \<noteq> []" "\<forall>c \<in> set a. \<not> sp c" "\<forall>c \<in> set b. \<not> sp c" "sp x"
  shows "split_ws sp [] (a @ [x] @ b) = [a, b]"
proof -
  have "split_ws sp [] (a @ [x] @ b) = split_ws sp a ([x] @ b)"
    using split_ws_run [OF assms(3), of "[]" "[x] @ b"] by simp
  also have "\<dots> = a # split_ws sp [] b"
    using assms(1,5) by simp
  also have "split_ws sp [] b = split_ws sp b []"
    using split_ws_run [OF assms(4), of "[]" "[]"] by simp
  finally show ?thesis using assms(2) by simp
qed

lemma utf8_encode_ascii: "is_ascii s \<Longrightarrow> utf8_encode s = Some (map of_nat s)"
  by (induction s) (auto simp: is_ascii_def utf8_encode_cp_def)

lemma utf8_decode_ascii_cons:
  "unat b < 128 \<Longrightarrow> utf8_decode (b # bs) = map_option ((#) (unat b)) (utf8_decode bs)"
  by (cases "b # bs" rule: utf8_decode.cases) auto

lemma unat_of_nat_ascii: "c < 128 \<Longrightarrow> unat (of_nat c :: byte) = c"
  by (simp add: unat_of_nat)

lemma utf8_decode_ascii: "is_ascii s \<Longrightarrow> utf8_decode (map of_nat s) = Some s"
proof (induction s)
  case Nil
  then show ?case by simp
next
  case (Cons c s)
  then have c: "c < 128" and s: "is_ascii s" by (auto simp: is_ascii_def)
  show ?case
    using Cons.IH [OF s] c by (simp add: utf8_decode_ascii_cons unat_of_nat_ascii)
qed

lemma length_hex: "length (hex bs) = 2 * length bs"
  by (induction bs) (auto simp: hex_def)

lemma bytes_find_here:
  "b \<notin> set h \<Longrightarrow> bytes_find (pre @ h @ b # r) b (length pre) = Some (length pre + length h)"
  by (simp add: bytes_find_def takeWhile_append takeWhile_eq_all_conv [THEN iffD2])

lemma length_be32: "length (be32 w) = 4"
  by (simp add: be32_def)

lemma length_sha1: "length (sha1 m) = 20"
  by (simp add: sha1_def Let_def length_be32 split: prod.splits)

lemma length_hexdigest: "length (hexdigest m) = 40"
  by (simp add: hexdigest_def length_hex length_sha1)

section \<open>The index decoder: the checksum and the missing file\<close>

text \<open>
  \<open>read_index\<close> compares the SHA-1 of \<^verbatim>\<open>data[:-20]\<close> with \<^verbatim>\<open>data[:-20]\<close> itself, not with
  the trailing 20 bytes \<^verbatim>\<open>data[-20:]\<close>. A digest has 20 bytes, so the two can agree only
  on a file of exactly 40 bytes; every other file fails the assertion.
\<close>

lemma read_index_checksum_gate:
  assumes "index_file s = Some data" and "length data \<noteq> 40"
  shows "read_index s = Inl (AssertionError Invalid_index_checksum)"
proof -
  have "length (sha1 (take (length data - 20) data)) = 20"
    by (rule length_sha1)
  moreover have "length (take (length data - 20) data) \<noteq> 20"
    using assms(2) by simp
  ultimately have "sha1 (take (length data - 20) data) \<noteq> take (length data - 20) data"
    by metis
  then show ?thesis
    using assms(1) by (simp add: read_index_def read_file_def Let_def)
qed

text \<open>
  Claim C2 (the code departs from it). An index file whose last 20 bytes are the SHA-1 of
  all preceding bytes should pass the checksum check. The index of a repository with no
  tracked path, a correct header followed by its SHA-1, is such a file, and \<open>read_index\<close>
  rejects it with the assertion failure \<^verbatim>\<open>invalid index checksum\<close>.
\<close>

theorem read_index_rejects_valid_checksum:
  "read_index \<lparr>index_file = Some (empty_index @ sha1 empty_index), objects = Map.empty\<rparr>
     = Inl (AssertionError Invalid_index_checksum)"
  by (rule read_index_checksum_gate [where data = "empty_index @ sha1 empty_index"])
     (simp_all add: length_sha1 empty_index_def ascii_bytes_def)

text \<open>
  Claim C9 (the code departs from it). When the file \<^verbatim>\<open>.git/index\<close> does not exist,
  \<open>read_index\<close> raises nothing and returns the empty list of entries, whatever else the
  repository holds; so far the claim holds. But the caller can tell this from an index
  that lists no path: on the well-formed index file with zero entries \<open>read_index\<close> does
  not return the empty list, it raises the assertion failure \<^verbatim>\<open>invalid index checksum\<close>.
\<close>

theorem read_index_missing_distinguishable:
  "read_index (s\<lparr>index_file := None\<rparr>) = Inr []
   \<and> read_index (s\<lparr>index_file := Some (empty_index @ sha1 empty_index)\<rparr>)
       = Inl (AssertionError Invalid_index_checksum)"
proof
  show "read_index (s\<lparr>index_file := None\<rparr>) = Inr []"
    by (simp add: read_index_def read_file_def)
  show "read_index (s\<lparr>index_file := Some (empty_index @ sha1 empty_index)\<rparr>)
       = Inl (AssertionError Invalid_index_checksum)"
    by (rule read_index_checksum_gate [where data = "empty_index @ sha1 empty_index"])
       (simp_all add: length_sha1 empty_index_def ascii_bytes_def)
qed

text \<open>
  Claim C8, as stated, fails on the empty index file: the program has no check of the
  length and no error for a truncated index; the file is rejected by the checksum
  assertion.
\<close>

theorem read_index_empty_file:
  "read_index \<lparr>index_file = Some [], objects = Map.empty\<rparr>
     = Inl (AssertionError Invalid_index_checksum)"
  by (rule read_index_checksum_gate [where data = "[]"]) simp_all

text \<open>
  Claim C8, amended. Every index file shorter than 32 bytes is rejected: \<open>read_index\<close>
  raises an error and returns no entries. A file shorter than 20 bytes, which cannot even
  hold a checksum, fails the checksum assertion.
\<close>

theorem read_index_short:
  assumes "index_file s = Some data" and "length data < 32"
  shows "(\<exists>e. read_index s = Inl e) \<and>
         (length data < 20 \<longrightarrow> read_index s = Inl (AssertionError Invalid_index_checksum))"
  using read_index_checksum_gate [OF assms(1)] assms(2) by simp

theorem read_index_short_witness:
  "index_file \<lparr>index_file = Some [1, 2, 3], objects = Map.empty\<rparr> = Some [1, 2, 3]
   \<and> length [1, 2, 3 :: byte] < 32 \<and> length [1, 2, 3 :: byte] < 20
   \<and> read_index \<lparr>index_file = Some [1, 2, 3], objects = Map.empty\<rparr>
       = Inl (AssertionError Invalid_index_checksum)"
  using read_index_short [of "\<lparr>index_file = Some [1, 2, 3], objects = Map.empty\<rparr>" "[1, 2, 3]"]
  by simp

section \<open>The object store: lookup and writing\<close>

text \<open>
  Claim C3 (the code departs from it). A prefix that no stored digest matches should fail
  with the object-not-found error, also when no stored object shares its first two
  characters. On a store with no directory \<^verbatim>\<open>zz\<close>, \<open>find_object\<close> raises the
  \<^verbatim>\<open>FileNotFoundError\<close> of \<^verbatim>\<open>os.listdir\<close> instead of its own \<^verbatim>\<open>ValueError\<close>.
\<close>

theorem find_object_missing_directory:
  "find_object empty_fs (ascii ''zz'') = Inl FileNotFoundError"
  by (simp add: find_object_def listdir_def ascii_def empty_fs_def)

text \<open>Where the directory exists, \<open>find_object\<close> does what claim C3 describes.\<close>

lemma find_object_in_directory:
  assumes "2 \<le> length p" and "objects s (take 2 p) = Some l"
  shows "find_object s p =
     (let objs = filter (\<lambda>name. startswith name (drop 2 p)) (map fst l)
      in if length objs = 0 then Inl (ValueError (Object_not_found p))
         else if 2 \<le> length objs then Inl (ValueError (Multiple_objects (length objs) p))
         else Inr (Object_path (take 2 p) (hd objs)))"
  using assms by (simp add: find_object_def listdir_def Let_def)

text \<open>
  Claim C4. Let a first \<open>hash_object\<close> with \<^verbatim>\<open>write=True\<close> return the digest \<open>d\<close> and leave
  the file system \<open>s1\<close>. A second call with the same payload and type returns \<open>d\<close> again
  and leaves \<open>s1\<close> as it is; the directory \<^verbatim>\<open>d[:2]\<close> lists the name \<^verbatim>\<open>d[2:]\<close> exactly once;
  no other path was created or changed; and if a file was already at the digest's path
  before the first call, that call wrote nothing at all.
\<close>

theorem hash_object_idempotent:
  assumes "fs_ok s" and "hash_object Z s data t True = Inr (d, s1)"
  shows "hash_object Z s1 data t True = Inr (d, s1)
         \<and> (\<exists>names. listdir s1 (take 2 d) = Inr names \<and> count_list names (drop 2 d) = 1)
         \<and> (\<forall>p. p \<noteq> Object_path (take 2 d) (drop 2 d) \<longrightarrow> read_file s1 p = read_file s p)
         \<and> (path_exists s (Object_path (take 2 d) (drop 2 d)) \<longrightarrow> s1 = s)"
proof -
  obtain header where enc: "utf8_encode (t @ [32] @ str_of_nat (length data)) = Some header"
    using assms(2) by (auto simp: hash_object_def split: option.splits)
  define full where "full = header @ [0] @ data"
  have d: "d = hexdigest full"
    using assms(2) enc
    by (auto simp: hash_object_def Let_def full_def split: if_splits sum.splits)
  define dd where "dd = take 2 d"
  define n where "n = drop 2 d"
  show ?thesis
  proof (cases "path_exists s (Object_path dd n)")
    case True
    then have s1: "s1 = s"
      using assms(2) enc d
      by (auto simp: hash_object_def Let_def full_def dd_def n_def split: if_splits sum.splits)
    from True obtain l c where l: "objects s dd = Some l" "map_of l n = Some c"
      by (auto simp: path_exists_def split: option.splits)
    have "count_list (map fst l) n = 1"
      using assms(1) l by (intro map_of_names_count [where c = c]) (auto simp: fs_ok_def)
    then show ?thesis
      using True s1 assms(2) l by (simp add: dd_def n_def listdir_def)
  next
    case False
    define l0 where "l0 = (case objects s dd of None \<Rightarrow> [] | Some l \<Rightarrow> l)"
    have ok0: "distinct (map fst l0)"
      using assms(1) by (auto simp: l0_def fs_ok_def split: option.splits)
    have s1: "s1 = s\<lparr>objects := (objects s)(dd \<mapsto> AList.update n (compress Z full) l0)\<rparr>"
      using assms(2) enc d False
      by (auto simp: hash_object_def Let_def full_def dd_def n_def l0_def write_file_def
            makedirs_def split: if_splits sum.splits option.splits)
    have ex: "path_exists s1 (Object_path dd n)"
      by (simp add: s1 path_exists_def update_conv')
    have again: "hash_object Z s1 data t True = Inr (d, s1)"
      using enc d ex by (simp add: hash_object_def Let_def full_def dd_def n_def)
    have cnt: "\<exists>names. listdir s1 dd = Inr names \<and> count_list names n = 1"
      using update_names_count [OF ok0] by (simp add: s1 listdir_def)
    have others: "\<forall>p. p \<noteq> Object_path dd n \<longrightarrow> read_file s1 p = read_file s p"
    proof (intro allI impI)
      fix p assume "p \<noteq> Object_path dd n"
      then show "read_file s1 p = read_file s p"
        using False
        by (cases p) (auto simp: s1 read_file_def update_conv' l0_def path_exists_def
                       split: option.splits)
    qed
    show ?thesis
      using again cnt others False by (simp add: dd_def n_def)
  qed
qed

lemma hello_header:
  "utf8_encode (ascii ''blob'' @ 32 # str_of_nat (length (ascii_bytes ''hello'')))
     = Some (ascii_bytes ''blob 5'')"
  by (simp add: ascii_def ascii_bytes_def str_of_nat.simps utf8_encode_cp_def)

lemma hello_store_write:
  "hash_object no_compression hello_store (ascii_bytes ''hello'') (ascii ''blob'') True
     = Inr (hexdigest hello_blob, hello_store)"
  by (simp add: hash_object_def hello_header Let_def path_exists_def hello_store_def
        hello_blob_def no_compression_def)

theorem hash_object_idempotent_witness:
  "fs_ok hello_store
   \<and> hash_object no_compression hello_store (ascii_bytes ''hello'') (ascii ''blob'') True
       = Inr (hexdigest hello_blob, hello_store)
   \<and> path_exists hello_store
       (Object_path (take 2 (hexdigest hello_blob)) (drop 2 (hexdigest hello_blob)))
   \<and> (\<exists>names. listdir hello_store (take 2 (hexdigest hello_blob)) = Inr names
        \<and> count_list names (drop 2 (hexdigest hello_blob)) = 1)"
proof -
  have ok: "fs_ok hello_store"
    by (simp add: fs_ok_def hello_store_def)
  have ex: "path_exists hello_store
       (Object_path (take 2 (hexdigest hello_blob)) (drop 2 (hexdigest hello_blob)))"
    by (simp add: path_exists_def hello_store_def)
  from hash_object_idempotent [OF ok hello_store_write] ok hello_store_write ex
  show ?thesis by blast
qed

section \<open>The tree decoder: records, the bound and short digests\<close>

lemma slice_middle: "slice (a @ b @ c) (length a) (length a + length b) = b"
  by (simp add: slice_def)

lemma tree_loop_pos:
  "0 < n \<Longrightarrow> tree_loop U data n i entries =
     (case bytes_find data 0 i of
        None \<Rightarrow> Inr entries
      | Some e \<Rightarrow>
          (case tree_header U (slice data i e) of
             Inl err \<Rightarrow> Inl err
           | Inr (m, p) \<Rightarrow>
               tree_loop U data (n - 1) (e + 1 + 20)
                 (entries @ [(m, p, hex (slice data (e + 1) (e + 21)))])))"
  by (cases n) (simp_all add: tree_loop.simps Let_def split: option.splits sum.splits prod.splits)

lemma tree_loop_step:
  assumes "0 \<notin> set h" and "tree_header U h = Inr (m, p)"
  shows "tree_loop U (pre @ h @ 0 # rest) (Suc n) (length pre) es
       = tree_loop U (pre @ h @ 0 # rest) n (length pre + length h + 21)
           (es @ [(m, p, hex (take 20 rest))])"
proof -
  define D where "D = pre @ h @ 0 # rest"
  define e where "e = length pre + length h"
  have f: "bytes_find D 0 (length pre) = Some e"
    unfolding D_def e_def by (rule bytes_find_here [OF assms(1)])
  have s1: "slice D (length pre) e = h"
    using slice_middle [of pre h "0 # rest"] by (simp add: D_def e_def)
  have s2: "slice D (e + 1) (e + 21) = take 20 rest"
    by (simp add: slice_def D_def e_def)
  have "tree_loop U D (Suc n) (length pre) es
      = tree_loop U D n (e + 1 + 20) (es @ [(m, p, hex (take 20 rest))])"
    by (simp only: tree_loop.simps f option.case s1 assms(2) sum.case prod.case Let_def s2)
  moreover have "e + 1 + 20 = length pre + length h + 21"
    by (simp add: e_def)
  ultimately show ?thesis
    by (simp only: D_def)
qed

lemma tree_loop_records:
  assumes "\<forall>r \<in> set recs. record_ok U r"
  shows "tree_loop U (pre @ concat (map tree_record recs) @ post) n (length pre) es
       = (if n < length recs then Inr (es @ map (entry_of U) (take n recs))
          else tree_loop U (pre @ concat (map tree_record recs) @ post) (n - length recs)
                 (length pre + length (concat (map tree_record recs)))
                 (es @ map (entry_of U) recs))"
  using assms
proof (induction recs arbitrary: pre n es)
  case Nil
  then show ?case by simp
next
  case (Cons r rs)
  obtain h d where r: "r = (h, d)" by (cases r)
  from Cons.prems obtain m p where ok: "0 \<notin> set h" "length d = 20" "tree_header U h = Inr (m, p)"
    by (auto simp: r record_ok_def)
  have e: "entry_of U r = (m, p, hex d)"
    by (simp add: entry_of_def r ok)
  define D where "D = pre @ concat (map tree_record (r # rs)) @ post"
  have D1: "D = pre @ h @ 0 # (d @ concat (map tree_record rs) @ post)"
    by (simp add: D_def r tree_record_def)
  have D2: "D = (pre @ h @ 0 # d) @ concat (map tree_record rs) @ post"
    by (simp add: D_def r tree_record_def)
  have len: "length (concat (map tree_record (r # rs)))
             = length h + 21 + length (concat (map tree_record rs))"
    by (simp add: r tree_record_def ok(2))
  have goal: "tree_loop U D n (length pre) es
       = (if n < length (r # rs) then Inr (es @ map (entry_of U) (take n (r # rs)))
          else tree_loop U D (n - length (r # rs))
                 (length pre + length (concat (map tree_record (r # rs))))
                 (es @ map (entry_of U) (r # rs)))"
  proof (cases n)
    case 0
    then show ?thesis by (simp add: tree_loop.simps)
  next
    case (Suc k)
    have step: "tree_loop U D (Suc k) (length pre) es
        = tree_loop U D k (length (pre @ h @ 0 # d)) (es @ [(m, p, hex d)])"
    proof -
      have tk: "take 20 (d @ concat (map tree_record rs) @ post) = d"
        by (simp add: ok(2))
      have li: "length (pre @ h @ 0 # d) = length pre + length h + 21"
        by (simp add: ok(2))
      show ?thesis
        using tree_loop_step [OF ok(1,3), of pre "d @ concat (map tree_record rs) @ post" k es]
        by (simp only: D1 tk li)
    qed
    have ih: "tree_loop U D k (length (pre @ h @ 0 # d)) (es @ [(m, p, hex d)])
        = (if k < length rs then Inr ((es @ [(m, p, hex d)]) @ map (entry_of U) (take k rs))
           else tree_loop U D (k - length rs)
                 (length (pre @ h @ 0 # d) + length (concat (map tree_record rs)))
                 ((es @ [(m, p, hex d)]) @ map (entry_of U) rs))"
      unfolding D2 using Cons.prems by (intro Cons.IH) simp
    have idx: "length (pre @ h @ 0 # d) + length (concat (map tree_record rs))
               = length pre + length (concat (map tree_record (r # rs)))"
      by (simp add: r tree_record_def ok(2))
    show ?thesis
      unfolding Suc step ih idx by (simp add: e)
  qed
  then show ?case by (simp only: D_def)
qed

lemma tree_loop_length:
  "tree_loop U data n i es0 = Inr es \<Longrightarrow> length es \<le> length es0 + n"
proof (induction n arbitrary: i es0)
  case 0
  then show ?case by (simp add: tree_loop.simps)
next
  case (Suc n)
  show ?case
  proof (cases "bytes_find data 0 i")
    case None
    with Suc.prems show ?thesis by (simp add: tree_loop.simps)
  next
    case (Some e)
    show ?thesis
    proof (cases "tree_header U (slice data i e)")
      case (Inl err)
      with Suc.prems Some show ?thesis by (simp add: tree_loop.simps)
    next
      case (Inr mp)
      obtain m p where mp: "mp = (m, p)" by (cases mp)
      from Suc.prems Some Inr mp
      have "tree_loop U data n (e + 1 + 20) (es0 @ [(m, p, hex (slice data (e + 1) (e + 21)))]) = Inr es"
        by (simp add: tree_loop.simps Let_def)
      from Suc.IH [OF this] show ?thesis by simp
    qed
  qed
qed

lemma tree_loop_past_end:
  "length data \<le> i \<Longrightarrow> tree_loop U data n i es = Inr es"
  by (cases n) (simp_all add: tree_loop.simps bytes_find_def)

lemma read_tree_records:
  assumes "\<forall>r \<in> set recs. record_ok U r"
  shows "read_tree Z U s None (Some (concat (map tree_record recs)))
          = Inr (map (entry_of U) (take 1000 recs))"
proof -
  have "tree_loop U (concat (map tree_record recs)) 1000 0 []
      = (if 1000 < length recs then Inr (map (entry_of U) (take 1000 recs))
         else tree_loop U (concat (map tree_record recs)) (1000 - length recs)
                 (length (concat (map tree_record recs))) (map (entry_of U) recs))"
    using tree_loop_records [OF assms, of "[]" "[]" 1000 "[]"] by simp
  then show ?thesis
    by (simp add: read_tree_def tree_loop_past_end)
qed

text \<open>
  Claim C7, amended. Tree decoding has a hard upper bound: \<open>read_tree\<close> never returns more
  than 1000 entries. A payload made of well-formed records is decoded, without any error,
  to the entries of its first 1000 records; the records beyond the bound are dropped
  silently.
\<close>

theorem read_tree_bound:
  "(read_tree Z U s prefix data = Inr es \<longrightarrow> length es \<le> 1000)
   \<and> ((\<forall>r \<in> set recs. record_ok U r) \<longrightarrow>
        read_tree Z U s None (Some (concat (map tree_record recs)))
          = Inr (map (entry_of U) (take 1000 recs)))"
proof (intro conjI impI)
  assume "read_tree Z U s prefix data = Inr es"
  then obtain d where "tree_loop U d 1000 0 [] = Inr es"
    by (auto simp: read_tree_def split: option.splits sum.splits if_splits)
  from tree_loop_length [OF this] show "length es \<le> 1000" by simp
next
  assume "\<forall>r \<in> set recs. record_ok U r"
  then show "read_tree Z U s None (Some (concat (map tree_record recs)))
          = Inr (map (entry_of U) (take 1000 recs))"
    by (rule read_tree_records)
qed

lemmas py_eval = ascii_def ascii_bytes_def py_split_def py_isspace_def py_int_def to_ascii_def
  c_isspace_def strip_sign_def strip_prefix_def digit_value_def Let_def tree_header_def

lemma file_a_header: "tree_header U (ascii_bytes ''100644 a'') = Inr (33188, ascii ''a'')"
  by (simp add: py_eval)

lemma file_a_ok: "record_ok U file_a"
  by (simp add: record_ok_def file_a_def file_a_header) (simp add: ascii_bytes_def)

lemma file_a_entry: "entry_of U file_a = (33188, ascii ''a'', hex (replicate 20 0))"
  by (simp add: entry_of_def file_a_def file_a_header)

theorem read_tree_bound_witness:
  "read_tree no_compression ascii_db empty_fs None (Some (tree_record file_a))
     = Inr [(33188, ascii ''a'', hex (replicate 20 0))]
   \<and> length [(33188 :: int, ascii ''a'', hex (replicate 20 0))] \<le> 1000
   \<and> record_ok ascii_db file_a"
proof -
  have ok: "\<forall>r \<in> set [file_a]. record_ok ascii_db r"
    by (simp add: file_a_ok)
  have rt: "read_tree no_compression ascii_db empty_fs None (Some (tree_record file_a))
     = Inr [(33188, ascii ''a'', hex (replicate 20 0))]"
    using read_tree_bound [of no_compression ascii_db empty_fs None None "[]" "[file_a]"] ok
    by (simp add: file_a_entry)
  from read_tree_bound [of no_compression ascii_db empty_fs None "Some (tree_record file_a)"
         "[(33188, ascii ''a'', hex (replicate 20 0))]" "[]"] rt ok
  show ?thesis by simp
qed

text \<open>
  Claim C7, as stated, fails: a payload of 1001 well-formed records raises no error and
  decodes to 1000 entries.
\<close>

theorem read_tree_truncates:
  "read_tree no_compression ascii_db empty_fs None
     (Some (concat (replicate 1001 (tree_record file_a))))
   = Inr (replicate 1000 (33188, ascii ''a'', hex (replicate 20 0)))"
proof -
  have "\<forall>r \<in> set (replicate 1001 file_a). record_ok ascii_db r"
    by (simp add: file_a_ok)
  from read_tree_records [OF this, of no_compression empty_fs]
  show ?thesis by (simp add: map_replicate file_a_entry)
qed

text \<open>
  Claim C10, as stated, fails on the payload that is a single NUL: fewer than 20 bytes
  follow the NUL, and \<open>read_tree\<close> raises the \<^verbatim>\<open>ValueError\<close> of unpacking the empty header.
\<close>

theorem read_tree_lone_nul:
  "read_tree no_compression ascii_db empty_fs None (Some [0]) = Inl (ValueError (Unpack_count 0))"
  by (simp add: read_tree_def tree_loop_pos bytes_find_def slice_def py_eval)

text \<open>
  Claim C10, amended. Let a payload consist of fewer than 1000 well-formed records and
  then a header that parses, its NUL, and fewer than 20 further bytes. Then \<open>read_tree\<close>
  raises no error and returns the entries of the records followed by an entry for the last
  header whose digest is the hexadecimal form of just the bytes that remain.
\<close>

theorem read_tree_short_digest:
  assumes "\<forall>r \<in> set recs. record_ok U r" and "length recs < 1000"
    and "0 \<notin> set h" and "tree_header U h = Inr (m, p)" and "length rest < 20"
  shows "read_tree Z U s None (Some (concat (map tree_record recs) @ h @ [0] @ rest))
           = Inr (map (entry_of U) recs @ [(m, p, hex rest)])"
proof -
  define pre where "pre = concat (map tree_record recs)"
  define D where "D = pre @ h @ 0 # rest"
  obtain k where k: "1000 - length recs = Suc k"
    using assms(2) by (cases "1000 - length recs") simp_all
  have "tree_loop U D 1000 0 [] = tree_loop U D (Suc k) (length pre) (map (entry_of U) recs)"
    using tree_loop_records [OF assms(1), of "[]" "h @ 0 # rest" 1000 "[]"] assms(2)
    by (simp add: D_def pre_def k)
  also have "\<dots> = tree_loop U D k (length pre + length h + 21)
                     (map (entry_of U) recs @ [(m, p, hex (take 20 rest))])"
    unfolding D_def by (rule tree_loop_step [OF assms(3,4)])
  also have "\<dots> = Inr (map (entry_of U) recs @ [(m, p, hex (take 20 rest))])"
    using assms(5) by (intro tree_loop_past_end) (simp add: D_def)
  finally show ?thesis
    using assms(5) by (simp add: read_tree_def D_def pre_def)
qed

theorem read_tree_short_digest_witness:
  "record_ok ascii_db file_a \<and> length [file_a] < 1000
   \<and> 0 \<notin> set (ascii_bytes ''100644 a'')
   \<and> tree_header ascii_db (ascii_bytes ''100644 a'') = Inr (33188, ascii ''a'')
   \<and> length [1, 2, 255 :: byte] < 20
   \<and> read_tree no_compression ascii_db empty_fs None
        (Some (tree_record file_a @ ascii_bytes ''100644 a'' @ [0] @ [1, 2, 255]))
      = Inr [(33188, ascii ''a'', hex (replicate 20 0)), (33188, ascii ''a'', ascii ''0102ff'')]"
proof -
  have ok: "\<forall>r \<in> set [file_a]. record_ok ascii_db r"
    by (simp add: file_a_ok)
  have nz: "0 \<notin> set (ascii_bytes ''100644 a'')"
    by (simp add: ascii_bytes_def)
  have hx: "hex [1, 2, 255] = ascii ''0102ff''"
    by (simp add: hex_def hex_digit_def ascii_def)
  from read_tree_short_digest [OF ok _ nz file_a_header, of "[1, 2, 255]" no_compression empty_fs]
    ok nz file_a_header [of ascii_db]
  show ?thesis by (simp add: file_a_entry hx)
qed

text \<open>
  Claim C6 (the code departs from it). The header is to be split at its first space into
  mode and path. For the file name \<^verbatim>\<open>a b\<close> the header is \<^verbatim>\<open>100644 a b\<close>; \<open>read_tree\<close>
  splits it at every run of whitespace into three parts and the tuple assignment raises
  \<^verbatim>\<open>ValueError\<close>.
\<close>

theorem read_tree_path_with_space:
  "read_tree Z U s None (Some (ascii_bytes ''100644 a b'' @ [0] @ replicate 20 0))
   = Inl (ValueError (Unpack_count 3))"
proof -
  have f: "bytes_find (ascii_bytes ''100644 a b'' @ [0] @ replicate 20 0) 0 0 = Some 10"
    using bytes_find_here [of 0 "ascii_bytes ''100644 a b''" "[]" "replicate 20 0"]
    by (simp add: ascii_bytes_def)
  have s: "slice (ascii_bytes ''100644 a b'' @ [0] @ replicate 20 0) 0 10 = ascii_bytes ''100644 a b''"
    by (simp add: slice_def ascii_bytes_def)
  have h: "tree_header U (ascii_bytes ''100644 a b'') = Inl (ValueError (Unpack_count 3))"
    by (simp add: py_eval)
  show ?thesis
    by (simp only: read_tree_def option.case tree_loop_pos [of 1000] zero_less_numeral f s h sum.case)
qed

text \<open>The two examples of claim C6 hold: 33188 is the octal number 100644.\<close>

lemma read_tree_empty: "read_tree Z U s None (Some []) = Inr []"
  by (simp add: read_tree_def tree_loop_pos bytes_find_def)

lemma read_tree_a_txt:
  "read_tree Z U s None (Some (ascii_bytes ''100644 a.txt'' @ [0] @ replicate 20 0))
     = Inr [(33188, ascii ''a.txt'', concat (replicate 20 (ascii ''00'')))]"
proof -
  have ok: "\<forall>r \<in> set [(ascii_bytes ''100644 a.txt'', replicate 20 0)]. record_ok U r"
    by (simp add: record_ok_def) (simp add: py_eval)
  have "entry_of U (ascii_bytes ''100644 a.txt'', replicate 20 0)
        = (33188, ascii ''a.txt'', concat (replicate 20 (ascii ''00'')))"
    by (simp add: entry_of_def) (simp add: py_eval hex_def hex_digit_def)
  with read_tree_records [OF ok, of Z s] show ?thesis
    by (simp add: tree_record_def)
qed

section \<open>The index decoder: the walk over the entries\<close>

lemma length_be_bytes: "length (be_bytes k n) = k"
  by (simp add: be_bytes_def)

lemma unat_byte_of_nat: "unat (of_nat n :: byte) = n mod 256"
  by (simp add: unat_of_nat)

lemma be_nat_shift:
  "foldl (\<lambda>a b. a * 256 + unat b) a bs = a * 256 ^ length bs + be_nat bs"
proof (induction bs arbitrary: a)
  case Nil
  then show ?case by (simp add: be_nat_def)
next
  case (Cons b bs)
  have "foldl (\<lambda>a b. a * 256 + unat b) a (b # bs)
        = (a * 256 + unat b) * 256 ^ length bs + be_nat bs"
    by (simp add: Cons.IH)
  moreover have "be_nat (b # bs) = unat b * 256 ^ length bs + be_nat bs"
    by (simp add: be_nat_def Cons.IH [of "unat b"])
  ultimately show ?case
    by (simp add: algebra_simps)
qed

lemma be_nat_Cons: "be_nat (b # bs) = unat b * 256 ^ length bs + be_nat bs"
  using be_nat_shift [of "unat b" bs] by (simp add: be_nat_def)

lemma be_bytes_Suc: "be_bytes (Suc k) n = of_nat (n div 256 ^ k mod 256) # be_bytes k n"
  by (simp add: be_bytes_def)

lemma be_nat_be_bytes_mod: "be_nat (be_bytes k n) = n mod 256 ^ k"
proof (induction k)
  case 0
  then show ?case by (simp add: be_bytes_def be_nat_def)
next
  case (Suc k)
  have "be_nat (be_bytes (Suc k) n) = n div 256 ^ k mod 256 * 256 ^ k + n mod 256 ^ k"
    by (simp add: be_bytes_Suc be_nat_Cons length_be_bytes unat_byte_of_nat Suc.IH)
  also have "\<dots> = n mod (256 ^ k * 256)"
    by (simp add: mod_mult2_eq)
  finally show ?case by (simp add: mult.commute)
qed

lemma be_nat_be_bytes_4: "n < 2 ^ 32 \<Longrightarrow> be_nat (be_bytes 4 n) = n"
  by (simp add: be_nat_be_bytes_mod)

lemma be_nat_be_bytes_2: "n < 2 ^ 16 \<Longrightarrow> be_nat (be_bytes 2 n) = n"
  by (simp add: be_nat_be_bytes_mod)

lemma length_index_fields: "length (sha1' e) = 20 \<Longrightarrow> length (index_fields e) = 62"
  by (simp add: index_fields_def length_be_bytes)

lemma unpack_index_fields:
  assumes "index_entry_ok (e, pth)"
  shows "unpack_entry (index_fields e) (path' e) = e"
proof -
  note ok = assms [unfolded index_entry_ok_def Let_def fst_conv snd_conv]
  have s: "length (sha1' e) = 20" using ok by simp
  have l4: "length (be_bytes 4 n) = 4" for n by (rule length_be_bytes)
  have l2: "length (be_bytes 2 n) = 2" for n by (rule length_be_bytes)
  have "ctime_s (unpack_entry (index_fields e) (path' e)) = ctime_s e"
       "ctime_n (unpack_entry (index_fields e) (path' e)) = ctime_n e"
       "mtime_s (unpack_entry (index_fields e) (path' e)) = mtime_s e"
       "mtime_n (unpack_entry (index_fields e) (path' e)) = mtime_n e"
       "dev (unpack_entry (index_fields e) (path' e)) = dev e"
       "ino (unpack_entry (index_fields e) (path' e)) = ino e"
       "mode (unpack_entry (index_fields e) (path' e)) = mode e"
       "uid (unpack_entry (index_fields e) (path' e)) = uid e"
       "gid (unpack_entry (index_fields e) (path' e)) = gid e"
       "size' (unpack_entry (index_fields e) (path' e)) = size' e"
       "sha1' (unpack_entry (index_fields e) (path' e)) = sha1' e"
       "flags (unpack_entry (index_fields e) (path' e)) = flags e"
       "path' (unpack_entry (index_fields e) (path' e)) = path' e"
    using ok
    by (simp_all add: unpack_entry_def index_fields_def slice_def l4 l2 s
          be_nat_be_bytes_4 be_nat_be_bytes_2)
  then show ?thesis
    by (intro INDEXENTRY.equality) simp_all
qed


lemma index_loop_stop: "length ed < i + 63 \<Longrightarrow> index_loop ed i es = Inr es"
  by (subst index_loop.simps) simp

lemma index_loop_next:
  assumes "i + 62 < length ed" and "bytes_find ed 0 (i + 62) = Some pe"
    and "utf8_decode (slice ed (i + 62) pe) = Some p"
  shows "index_loop ed i es
       = index_loop ed (i + ((62 + length (slice ed (i + 62) pe) + 8) div 8) * 8)
           (es @ [unpack_entry (slice ed i (i + 62)) p])"
  by (subst index_loop.simps) (simp add: assms Let_def)

lemma length_takeWhile_member:
  "x \<in> set xs \<Longrightarrow> length (takeWhile (\<lambda>y. y \<noteq> x) xs) < length xs"
  by (induction xs) auto

lemma bytes_find_bounds:
  assumes "bytes_find data b i = Some e"
  shows "i \<le> e \<and> e < length data"
proof -
  from assms have m: "b \<in> set (drop i data)"
    and e: "e = i + length (takeWhile (\<lambda>x. x \<noteq> b) (drop i data))"
    by (auto simp: bytes_find_def split: if_splits)
  from length_takeWhile_member [OF m] show ?thesis
    using e by simp
qed

lemma round_up_8:
  fixes n :: nat
  shows "((n + 8) div 8) * 8 mod 8 = 0" and "n < ((n + 8) div 8) * 8"
    and "((n + 8) div 8) * 8 \<le> n + 8"
  by presburger+

lemma round_up_8_eq:
  fixes n :: nat
  shows "((n + 8) div 8) * 8 = n + (8 - n mod 8)"
  by presburger

lemma index_loop_step:
  assumes "length f = 62" and "0 \<notin> set pth" and "utf8_decode pth = Some p"
  shows "index_loop (pre @ f @ pth @ 0 # rest) (length pre) es
       = index_loop (pre @ f @ pth @ 0 # rest) (length pre + ((62 + length pth + 8) div 8) * 8)
           (es @ [unpack_entry f p])"
proof -
  define D where "D = pre @ f @ pth @ 0 # rest"
  define i where "i = length pre"
  have c: "i + 62 < length D"
    by (simp add: D_def i_def assms(1))
  have "bytes_find ((pre @ f) @ pth @ 0 # rest) 0 (length (pre @ f))
          = Some (length (pre @ f) + length pth)"
    by (rule bytes_find_here [OF assms(2)])
  then have f: "bytes_find D 0 (i + 62) = Some (i + 62 + length pth)"
    by (simp add: D_def i_def assms(1))
  have s1: "slice D (i + 62) (i + 62 + length pth) = pth"
    by (simp add: slice_def D_def i_def assms(1))
  have s2: "slice D i (i + 62) = f"
    by (simp add: slice_def D_def i_def assms(1))
  from index_loop_next [OF c f, of p es] assms(3)
  have "index_loop D i es
       = index_loop D (i + ((62 + length pth + 8) div 8) * 8) (es @ [unpack_entry f p])"
    by (simp only: s1 s2)
  then show ?thesis by (simp only: D_def i_def)
qed

lemma length_index_record:
  "length (sha1' (fst r)) = 20 \<Longrightarrow>
     length (index_record r) = ((62 + length (snd r) + 8) div 8) * 8"
  using round_up_8_eq [of "62 + length (snd r)"]
  by (simp add: index_record_def length_index_fields)

lemma index_loop_records:
  assumes "\<forall>r \<in> set recs. index_entry_ok r"
  shows "index_loop (pre @ concat (map index_record recs) @ tail) (length pre) es
       = index_loop (pre @ concat (map index_record recs) @ tail)
           (length pre + length (concat (map index_record recs))) (es @ map fst recs)"
  using assms
proof (induction recs arbitrary: pre es)
  case Nil
  then show ?case by simp
next
  case (Cons r rs)
  obtain e pth where r: "r = (e, pth)" by (cases r)
  from Cons.prems have ok: "index_entry_ok (e, pth)" by (simp add: r)
  then have ok': "length (sha1' e) = 20" "0 \<notin> set pth" "utf8_decode pth = Some (path' e)"
    by (simp_all add: index_entry_ok_def Let_def)
  define pad where "pad = 8 - (62 + length pth) mod 8"
  define rest where "rest = replicate (pad - 1) 0 @ concat (map index_record rs) @ tail"
  define D where "D = pre @ concat (map index_record (r # rs)) @ tail"
  have "0 < pad" by (simp add: pad_def)
  then have rep: "replicate pad (0 :: byte) = 0 # replicate (pad - 1) 0"
    by (cases pad) simp_all
  have D1: "D = pre @ index_fields e @ pth @ 0 # rest"
    by (simp add: D_def r index_record_def pad_def [symmetric] rep rest_def)
  have D2: "D = (pre @ index_record r) @ concat (map index_record rs) @ tail"
    by (simp add: D_def)
  have len: "length (index_record r) = ((62 + length pth + 8) div 8) * 8"
    using length_index_record [of r] ok'(1) by (simp add: r)
  have "index_loop D (length pre) es
      = index_loop D (length pre + ((62 + length pth + 8) div 8) * 8)
          (es @ [unpack_entry (index_fields e) (path' e)])"
    unfolding D1 by (rule index_loop_step [OF length_index_fields [OF ok'(1)] ok'(2,3)])
  also have "unpack_entry (index_fields e) (path' e) = e"
    by (rule unpack_index_fields [OF ok])
  also have "length pre + ((62 + length pth + 8) div 8) * 8 = length (pre @ index_record r)"
    by (simp add: len)
  also have "index_loop D (length (pre @ index_record r)) (es @ [e])
      = index_loop D (length (pre @ index_record r) + length (concat (map index_record rs)))
          ((es @ [e]) @ map fst rs)"
    unfolding D2 using Cons.prems by (intro Cons.IH) simp
  also have "length (pre @ index_record r) + length (concat (map index_record rs))
      = length pre + length (concat (map index_record (r # rs)))"
    by simp
  also have "(es @ [e]) @ map fst rs = es @ map fst (r # rs)"
    by (simp add: r)
  finally show ?case
    by (simp only: D_def)
qed

text \<open>
  Claim C5. The walk over the entry region, the loop \<open>index_loop\<close>:
  \<^item> it stops, returning what it has decoded, when fewer than 63 bytes remain;
  \<^item> otherwise it reads the 62 fixed bytes at the offset and the path up to the next NUL,
    and goes on at an offset that is a multiple of 8 bytes further, beyond the NUL at
    \<open>pe\<close> and by at most 8 bytes: the record length rounded up, with at least one NUL;
  \<^item> so it decodes a sequence of well-formed records, each with ten big-endian 4-byte
    fields, a 20-byte digest, 2-byte flags, a NUL-terminated path and padding to a multiple
    of 8, followed by fewer than 63 other bytes, to exactly the entries recorded, in order.
\<close>

theorem index_loop_walk:
  "(length ed < i + 63 \<longrightarrow> index_loop ed i es = Inr es)
   \<and> (i + 62 < length ed \<and> bytes_find ed 0 (i + 62) = Some pe
        \<and> utf8_decode (slice ed (i + 62) pe) = Some p \<longrightarrow>
      (\<exists>n. index_loop ed i es = index_loop ed (i + n) (es @ [unpack_entry (slice ed i (i + 62)) p])
           \<and> n mod 8 = 0 \<and> pe < i + n \<and> i + n \<le> pe + 8))
   \<and> ((\<forall>r \<in> set recs. index_entry_ok r) \<and> length tail < 63 \<longrightarrow>
        index_loop (concat (map index_record recs) @ tail) 0 [] = Inr (map fst recs))"
proof (intro conjI impI)
  assume "length ed < i + 63"
  then show "index_loop ed i es = Inr es" by (rule index_loop_stop)
next
  assume a: "i + 62 < length ed \<and> bytes_find ed 0 (i + 62) = Some pe
        \<and> utf8_decode (slice ed (i + 62) pe) = Some p"
  define n where "n = ((62 + length (slice ed (i + 62) pe) + 8) div 8) * 8"
  from a bytes_find_bounds [of ed 0 "i + 62" pe]
  have b: "i + 62 \<le> pe" "pe < length ed" by simp_all
  then obtain m where m: "pe = i + 62 + m"
    using le_Suc_ex by blast
  have l: "length (slice ed (i + 62) pe) = m"
    using b by (simp add: slice_def m)
  have step: "index_loop ed i es
      = index_loop ed (i + n) (es @ [unpack_entry (slice ed i (i + 62)) p])"
    unfolding n_def using a by (intro index_loop_next) simp_all
  have nn: "n = ((62 + m + 8) div 8) * 8"
    by (simp only: n_def l)
  have "n mod 8 = 0" "62 + m < n" "n \<le> 62 + m + 8"
    unfolding nn by (rule round_up_8)+
  with m have "n mod 8 = 0 \<and> pe < i + n \<and> i + n \<le> pe + 8"
    by simp
  with step show "\<exists>n. index_loop ed i es
        = index_loop ed (i + n) (es @ [unpack_entry (slice ed i (i + 62)) p])
      \<and> n mod 8 = 0 \<and> pe < i + n \<and> i + n \<le> pe + 8"
    by (intro exI [where x = n] conjI) simp_all
next
  assume a: "(\<forall>r \<in> set recs. index_entry_ok r) \<and> length tail < 63"
  then have "index_loop (concat (map index_record recs) @ tail) 0 []
      = index_loop (concat (map index_record recs) @ tail)
          (length (concat (map index_record recs))) (map fst recs)"
    using index_loop_records [of recs "[]" tail "[]"] by simp
  also have "\<dots> = Inr (map fst recs)"
    using a by (intro index_loop_stop) simp
  finally show "index_loop (concat (map index_record recs) @ tail) 0 [] = Inr (map fst recs)" .
qed



lemma entry_a_ok: "index_entry_ok entry_a"
  by (simp add: index_entry_ok_def entry_a_def ascii_def ascii_bytes_def)

lemma entry_a_record:
  "index_record entry_a = index_fields (fst entry_a) @ ascii_bytes ''a'' @ [0]"
  by (simp add: index_record_def entry_a_def ascii_bytes_def)

lemma entry_a_fields: "length (index_fields (fst entry_a)) = 62"
  by (rule length_index_fields) (simp add: entry_a_def)

theorem index_loop_walk_witness:
  "length ([] :: bytes) < 0 + 63 \<and> index_loop [] 0 [] = Inr []
   \<and> 0 + 62 < length (index_record entry_a)
   \<and> bytes_find (index_record entry_a) 0 (0 + 62) = Some 63
   \<and> utf8_decode (slice (index_record entry_a) (0 + 62) 63) = Some (ascii ''a'')
   \<and> (\<exists>n. index_loop (index_record entry_a) 0 []
            = index_loop (index_record entry_a) (0 + n)
                ([] @ [unpack_entry (slice (index_record entry_a) 0 (0 + 62)) (ascii ''a'')])
          \<and> n mod 8 = 0 \<and> 63 < 0 + n \<and> 0 + n \<le> 63 + 8)
   \<and> index_entry_ok entry_a \<and> length ([] :: bytes) < 63
   \<and> index_loop (concat (map index_record [entry_a]) @ []) 0 [] = Inr (map fst [entry_a])"
proof -
  have h1: "length ([] :: bytes) < 0 + 63" by simp
  have h2: "0 + 62 < length (index_record entry_a)"
    by (simp add: entry_a_record entry_a_fields ascii_bytes_def)
  have "bytes_find (index_fields (fst entry_a) @ ascii_bytes ''a'' @ 0 # []) 0
          (length (index_fields (fst entry_a)))
        = Some (length (index_fields (fst entry_a)) + length (ascii_bytes ''a''))"
    by (rule bytes_find_here) (simp add: ascii_bytes_def)
  then have h3: "bytes_find (index_record entry_a) 0 (0 + 62) = Some 63"
    by (simp add: entry_a_record entry_a_fields ascii_bytes_def)
  have h4: "utf8_decode (slice (index_record entry_a) (0 + 62) 63) = Some (ascii ''a'')"
    by (simp add: entry_a_record slice_def entry_a_fields ascii_bytes_def ascii_def)
  have h5: "\<forall>r \<in> set [entry_a]. index_entry_ok r"
    by (simp add: entry_a_ok)
  have h6: "length ([] :: bytes) < 63" by simp
  note a = index_loop_walk [of "[]" 0 "[]" 0 "[]" "[]" "[]"]
  note b = index_loop_walk [of "index_record entry_a" 0 "[]" 63 "ascii ''a''" "[entry_a]" "[]"]
  from a h1 have c1: "index_loop [] 0 [] = Inr []" by blast
  from b h2 h3 h4 have c2: "\<exists>n. index_loop (index_record entry_a) 0 []
            = index_loop (index_record entry_a) (0 + n)
                ([] @ [unpack_entry (slice (index_record entry_a) 0 (0 + 62)) (ascii ''a'')])
          \<and> n mod 8 = 0 \<and> 63 < 0 + n \<and> 0 + n \<le> 63 + 8" by blast
  from b h5 h6 have c3: "index_loop (concat (map index_record [entry_a]) @ []) 0 []
      = Inr (map fst [entry_a])" by blast
  from h1 c1 h2 h3 h4 c2 entry_a_ok h6 c3 show ?thesis by blast
qed

section \<open>The object store: writing and reading back\<close>

lemma set_frames: "set (frames ws) = {f. \<exists>(t, p) \<in> set ws. full_data_of t p = Some f}"
  unfolding frames_def by (induction ws) (auto split: option.splits)

lemma store_inv_mono: "store_inv Z F s \<Longrightarrow> F \<subseteq> G \<Longrightarrow> store_inv Z G s"
  unfolding store_inv_def by fast

lemma store_inv_empty: "store_inv Z F empty_fs"
  by (simp add: store_inv_def empty_fs_def)

lemma set_update_subset: "set (AList.update k v al) \<subseteq> insert (k, v) (set al)"
  by (induction al) auto

lemma hash_object_result:
  assumes "hash_object Z s p t True = Inr (d, s')"
  shows "\<exists>f. full_data_of t p = Some f \<and> d = hexdigest f
     \<and> (path_exists s (Object_path (take 2 d) (drop 2 d)) \<longrightarrow> s' = s)
     \<and> (\<not> path_exists s (Object_path (take 2 d) (drop 2 d)) \<longrightarrow>
          s' = s\<lparr>objects := (objects s)(take 2 d \<mapsto>
                  AList.update (drop 2 d) (compress Z f)
                    (case objects s (take 2 d) of None \<Rightarrow> [] | Some l \<Rightarrow> l))\<rparr>)"
proof -
  obtain header where enc: "utf8_encode (t @ [32] @ str_of_nat (length p)) = Some header"
    using assms by (auto simp: hash_object_def split: option.splits)
  define f where "f = header @ [0] @ p"
  have 1: "full_data_of t p = Some f"
    using enc by (simp add: full_data_of_def f_def)
  have 2: "d = hexdigest f"
    using assms enc by (auto simp: hash_object_def Let_def f_def split: if_splits sum.splits)
  have 3: "s' = s" if "path_exists s (Object_path (take 2 d) (drop 2 d))"
    using assms enc that 2
    by (auto simp: hash_object_def Let_def f_def split: if_splits sum.splits)
  have 4: "s' = s\<lparr>objects := (objects s)(take 2 d \<mapsto>
                  AList.update (drop 2 d) (compress Z f)
                    (case objects s (take 2 d) of None \<Rightarrow> [] | Some l \<Rightarrow> l))\<rparr>"
    if "\<not> path_exists s (Object_path (take 2 d) (drop 2 d))"
    using assms enc that 2
    by (auto simp: hash_object_def Let_def f_def write_file_def makedirs_def
          split: if_splits sum.splits option.splits)
  from 1 2 3 4 show ?thesis by blast
qed

lemma hash_object_inv:
  assumes "store_inv Z F s" and "hash_object Z s p t True = Inr (d, s')"
    and "full_data_of t p = Some f" and "f \<in> F"
  shows "store_inv Z F s'"
proof -
  from hash_object_result [OF assms(2)]
  obtain f' where f': "full_data_of t p = Some f'" "d = hexdigest f'"
    and same: "path_exists s (Object_path (take 2 d) (drop 2 d)) \<Longrightarrow> s' = s"
    and new: "\<not> path_exists s (Object_path (take 2 d) (drop 2 d)) \<Longrightarrow>
          s' = s\<lparr>objects := (objects s)(take 2 d \<mapsto>
                  AList.update (drop 2 d) (compress Z f')
                    (case objects s (take 2 d) of None \<Rightarrow> [] | Some l \<Rightarrow> l))\<rparr>"
    by blast
  from f'(1) assms(3) have ff: "f' = f" by simp
  show ?thesis
  proof (cases "path_exists s (Object_path (take 2 d) (drop 2 d))")
    case True
    with same assms(1) show ?thesis by simp
  next
    case False
    define l0 where "l0 = (case objects s (take 2 d) of None \<Rightarrow> [] | Some l \<Rightarrow> l)"
    have s': "s' = s\<lparr>objects := (objects s)(take 2 d \<mapsto> AList.update (drop 2 d) (compress Z f) l0)\<rparr>"
      using new [OF False] by (simp add: ff l0_def)
    have d40: "length d = 40"
      by (simp add: f'(2) length_hexdigest)
    have l0: "distinct (map fst l0) \<and>
      (\<forall>n c. (n, c) \<in> set l0 \<longrightarrow> (\<exists>f \<in> F. c = compress Z f \<and> hexdigest f = take 2 d @ n))"
    proof (cases "objects s (take 2 d)")
      case None
      then show ?thesis by (simp add: l0_def)
    next
      case (Some l)
      with assms(1) show ?thesis
        unfolding store_inv_def l0_def by fastforce
    qed
    have newl: "\<exists>f \<in> F. c = compress Z f \<and> hexdigest f = take 2 d @ n"
      if "(n, c) \<in> set (AList.update (drop 2 d) (compress Z f) l0)" for n c
    proof -
      from that have "(n, c) = (drop 2 d, compress Z f) \<or> (n, c) \<in> set l0"
        using set_update_subset by fastforce
      then show ?thesis
      proof
        assume "(n, c) = (drop 2 d, compress Z f)"
        then show ?thesis
          using assms(4) f'(2) ff by auto
      next
        assume "(n, c) \<in> set l0"
        with l0 show ?thesis by blast
      qed
    qed
    show ?thesis
      unfolding store_inv_def
    proof (intro allI impI)
      fix dd l assume o: "objects s' dd = Some l"
      show "distinct (map fst l) \<and>
        (\<forall>n c. (n, c) \<in> set l \<longrightarrow>
           length dd = 2 \<and> (\<exists>f \<in> F. c = compress Z f \<and> hexdigest f = dd @ n))"
      proof (cases "dd = take 2 d")
        case True
        with o have "l = AList.update (drop 2 d) (compress Z f) l0"
          by (simp add: s')
        with newl l0 True d40 show ?thesis
          by (simp add: distinct_update)
      next
        case False
        with o have "objects s dd = Some l" by (simp add: s')
        with assms(1) show ?thesis unfolding store_inv_def by blast
      qed
    qed
  qed
qed

lemma replay_inv:
  assumes "replay Z s0 ws = Inr s" and "store_inv Z F s0" and "set (frames ws) \<subseteq> F"
  shows "store_inv Z F s"
  using assms
proof (induction ws arbitrary: s0)
  case Nil
  then show ?case by simp
next
  case (Cons w ws)
  obtain t p where w: "w = (t, p)" by (cases w)
  from Cons.prems(1) obtain d s1 where h: "hash_object Z s0 p t True = Inr (d, s1)"
    and r: "replay Z s1 ws = Inr s"
    by (auto simp: w split: sum.splits)
  from hash_object_result [OF h] obtain f where f: "full_data_of t p = Some f"
    by blast
  then have "f \<in> F"
    using Cons.prems(3) by (auto simp: set_frames w)
  from hash_object_inv [OF Cons.prems(2) h f this] have "store_inv Z F s1" .
  moreover have "set (frames ws) \<subseteq> F"
    using Cons.prems(3) by (auto simp: set_frames)
  ultimately show ?case
    using r by (intro Cons.IH)
qed


lemma type_facts:
  assumes "t \<in> object_types"
  shows "t \<noteq> []" and "is_ascii t" and "\<forall>c \<in> set t. \<not> py_isspace U c" and "0 \<notin> set t"
  using assms by (auto simp: object_types_def ascii_def py_isspace_def is_ascii_def)

lemma digits_facts:
  assumes "is_digits ds"
  shows "ds \<noteq> []" and "is_ascii ds" and "\<forall>c \<in> set ds. \<not> py_isspace U c" and "0 \<notin> set ds"
  using assms by (auto simp: is_digits_def py_isspace_def is_ascii_def)

lemma filter_eq_singleton:
  "distinct xs \<Longrightarrow> x \<in> set xs \<Longrightarrow> filter (\<lambda>y. y = x) xs = [x]"
  by (induction xs) (auto simp: filter_empty_conv)

lemma hash_object_total:
  assumes "full_data_of t p = Some f"
  shows "\<exists>s'. hash_object Z s p t True = Inr (hexdigest f, s')"
proof -
  from assms obtain header where enc: "utf8_encode (t @ [32] @ str_of_nat (length p)) = Some header"
    and f: "f = header @ [0] @ p"
    by (auto simp: full_data_of_def)
  show ?thesis
    using enc
    by (auto simp: hash_object_def Let_def f write_file_def makedirs_def split: option.splits)
qed

lemma read_object_frame:
  assumes "t \<in> object_types" and "lossless Z"
    and "find_object s d = Inr path" and "read_file s path = Inr (compress Z f)"
    and "full_data_of t p = Some f"
  shows "read_object Z U s d = Inr (t, p)"
proof -
  define ds where "ds = str_of_nat (length p)"
  define hs where "hs = t @ [32] @ ds"
  have dg: "is_digits ds" unfolding ds_def by (rule str_of_nat_digits)
  note tf = type_facts [OF assms(1)]
  note df = digits_facts [OF dg]
  have asc: "is_ascii hs"
    using tf(2) df(2) by (auto simp: hs_def is_ascii_def)
  have f: "f = map of_nat hs @ [0] @ p"
    using assms(5) utf8_encode_ascii [OF asc] by (simp add: full_data_of_def hs_def ds_def)
  define h :: bytes where "h = map of_nat hs"
  have nz: "0 \<notin> set h"
  proof
    assume "0 \<in> set h"
    then obtain c where c: "c \<in> set hs" "(of_nat c :: byte) = 0"
      by (auto simp: h_def)
    from c(1) asc have "c < 128" by (simp add: is_ascii_def)
    from unat_of_nat_ascii [OF this] c(2) have "c = 0" by simp
    with c(1) tf(4) df(4) show False by (auto simp: hs_def)
  qed
  have fh: "f = h @ 0 # p" by (simp add: f h_def)
  have lh: "length h = length hs" by (simp add: h_def)
  have find: "bytes_find f 0 0 = Some (length hs)"
    using bytes_find_here [OF nz, of "[]" p] by (simp add: fh lh)
  have dec: "utf8_decode (take (length hs) f) = Some hs"
    using utf8_decode_ascii [OF asc] by (simp add: fh lh h_def)
  have spl: "py_split U hs = [t, ds]"
    unfolding py_split_def hs_def
    by (rule split_ws_two [OF tf(1) df(1) tf(3) df(3)]) (simp add: py_isspace_def)
  have num: "py_int U 10 ds = Inr (int (length p))"
    unfolding ds_def by (rule py_int_str_of_nat)
  have rest: "drop (Suc (length hs)) f = p"
    by (simp add: fh lh)
  have dz: "decompress Z (compress Z f) = Some f"
    using assms(2) by (simp add: lossless_def)
  show ?thesis
    by (simp add: read_object_def assms(3,4) dz find dec spl num rest Let_def)
qed

text \<open>
  Claim C1. Take any store that the program has built from a fresh repository by writing
  objects, a payload \<open>p\<close> and a type \<open>t\<close> among \<^verbatim>\<open>blob\<close>, \<^verbatim>\<open>tree\<close> and \<^verbatim>\<open>commit\<close>. Then
  \<open>hash_object\<close> with \<^verbatim>\<open>write=True\<close> succeeds, and \<open>read_object\<close> applied to the digest it
  returns yields exactly \<open>(t, p)\<close>. Two facts about the libraries are assumed: zlib
  decompression undoes compression, and SHA-1 does not collide on the objects written.
\<close>

theorem write_read_roundtrip:
  assumes "lossless Z" and "replay Z empty_fs ws = Inr s"
    and "collision_free ((t, p) # ws)" and "t \<in> object_types"
  shows "\<exists>d s'. hash_object Z s p t True = Inr (d, s') \<and> read_object Z U s' d = Inr (t, p)"
proof -
  have "is_ascii (t @ [32] @ str_of_nat (length p))"
    using type_facts(2) [OF assms(4)] digits_facts(2) [OF str_of_nat_digits]
    by (auto simp: is_ascii_def)
  from utf8_encode_ascii [OF this] obtain f where f: "full_data_of t p = Some f"
    by (simp add: full_data_of_def)
  define d where "d = hexdigest f"
  define dd where "dd = take 2 d"
  define n where "n = drop 2 d"
  from hash_object_total [OF f] obtain s' where h: "hash_object Z s p t True = Inr (d, s')"
    unfolding d_def by blast
  define F where "F = set (frames ((t, p) # ws))"
  have fF: "f \<in> F"
    using f by (auto simp: F_def set_frames)
  have sub: "set (frames ws) \<subseteq> F"
    by (auto simp: F_def set_frames)
  have inv: "store_inv Z F s"
    using assms(2) store_inv_empty sub by (rule replay_inv)
  have inv': "store_inv Z F s'"
    using inv h f fF by (rule hash_object_inv)
  have d40: "length d = 40"
    by (simp add: d_def length_hexdigest)
  have ex: "path_exists s' (Object_path dd n)"
  proof (cases "path_exists s (Object_path dd n)")
    case True
    with hash_object_result [OF h] show ?thesis by (auto simp: dd_def n_def)
  next
    case False
    with hash_object_result [OF h] obtain c l0
      where "s' = s\<lparr>objects := (objects s)(dd \<mapsto> AList.update n c l0)\<rparr>"
      unfolding dd_def n_def by blast
    then show ?thesis
      by (simp add: path_exists_def update_conv')
  qed
  then obtain l c where l: "objects s' dd = Some l" and c: "map_of l n = Some c"
    by (auto simp: path_exists_def split: option.splits)
  from inv' l have dist: "distinct (map fst l)"
    and ent: "\<And>n c. (n, c) \<in> set l \<Longrightarrow> \<exists>f \<in> F. c = compress Z f \<and> hexdigest f = dd @ n"
    unfolding store_inv_def by blast+
  have nc: "(n, c) \<in> set l"
    using c by (rule map_of_SomeD)
  from ent [OF nc] obtain f' where f': "f' \<in> F" "c = compress Z f'" "hexdigest f' = dd @ n"
    by blast
  have "hexdigest f' = hexdigest f"
    by (simp add: f'(3) dd_def n_def d_def)
  with assms(3) f'(1) fF have "f' = f"
    unfolding collision_free_def F_def by (auto dest: inj_onD)
  with f'(2) have cf: "c = compress Z f" by simp
  have len38: "length name = 38" if "name \<in> set (map fst l)" for name
  proof -
    from that obtain c' where "(name, c') \<in> set l" by auto
    from ent [OF this] obtain g where "hexdigest g = dd @ name" by blast
    then have "length (dd @ name) = 40" using length_hexdigest [of g] by simp
    then show ?thesis using d40 by (simp add: dd_def)
  qed
  have n38: "length n = 38" using d40 by (simp add: n_def)
  have sw: "startswith name n = (name = n)" if "name \<in> set (map fst l)" for name
    using len38 [OF that] n38 by (auto simp: startswith_def)
  have "filter (\<lambda>name. startswith name n) (map fst l) = filter (\<lambda>name. name = n) (map fst l)"
    using sw by (intro filter_cong) simp_all
  also have "\<dots> = [n]"
    using dist nc by (intro filter_eq_singleton) (auto intro: rev_image_eqI)
  finally have flt: "filter (\<lambda>name. startswith name n) (map fst l) = [n]" .
  have fo: "find_object s' d = Inr (Object_path dd n)"
    using d40 l flt by (simp add: find_object_def listdir_def Let_def dd_def [symmetric] n_def [symmetric])
  have rf: "read_file s' (Object_path dd n) = Inr (compress Z f)"
    by (simp add: read_file_def l c cf)
  from read_object_frame [OF assms(4,1) fo rf f] h show ?thesis by blast
qed


lemma hello_frame: "full_data_of (ascii ''blob'') (ascii_bytes ''hello'') = Some hello_blob"
  using hello_header by (simp add: full_data_of_def hello_blob_def)

lemma hello_first_write:
  "hash_object no_compression empty_fs (ascii_bytes ''hello'') (ascii ''blob'') True
     = Inr (hexdigest hello_blob, hello_store)"
  by (simp add: hash_object_def hello_header Let_def path_exists_def empty_fs_def write_file_def
        makedirs_def hello_store_def hello_blob_def no_compression_def)

theorem write_read_roundtrip_witness:
  "lossless no_compression
   \<and> replay no_compression empty_fs [(ascii ''blob'', ascii_bytes ''hello'')] = Inr hello_store
   \<and> collision_free [(ascii ''blob'', ascii_bytes ''hello''), (ascii ''blob'', ascii_bytes ''hello'')]
   \<and> ascii ''blob'' \<in> object_types
   \<and> (\<exists>d s'. hash_object no_compression hello_store (ascii_bytes ''hello'') (ascii ''blob'') True
                 = Inr (d, s')
             \<and> read_object no_compression ascii_db s' d = Inr (ascii ''blob'', ascii_bytes ''hello''))"
proof -
  have 1: "lossless no_compression"
    by (simp add: lossless_def no_compression_def)
  have 2: "replay no_compression empty_fs [(ascii ''blob'', ascii_bytes ''hello'')] = Inr hello_store"
    by (simp add: hello_first_write)
  have 3: "collision_free
             [(ascii ''blob'', ascii_bytes ''hello''), (ascii ''blob'', ascii_bytes ''hello'')]"
    by (simp add: collision_free_def frames_def hello_frame)
  have 4: "ascii ''blob'' \<in> object_types"
    by (simp add: object_types_def)
  from write_read_roundtrip [OF 1 2 3 4, of ascii_db] 1 2 3 4 show ?thesis
    by blast
qed

end
